theory Spec2Isabelle
  imports Complex_Main
begin

section \<open>JavaScript values\<close>

text \<open>
  A JavaScript string is a sequence of UTF-16 code units; \<open>length\<close>, \<open>slice\<close>,
  \<open>charCodeAt\<close> and \<open>startsWith\<close> all count code units. A string is modelled as the
  list of its code units, and \<open>lit\<close> writes an ASCII literal of the source.
\<close>

type_synonym jstring = "nat list"

definition lit :: "string \<Rightarrow> jstring" where
  "lit s = map of_char s"

text \<open>
  What \<open>JSON.parse\<close> and \<open>response.json()\<close> return. A number is the real value of the
  double. An object is the list of its own properties; \<open>map_of\<close> reads one.
  A value that may be \<open>undefined\<close> is a \<open>json option\<close>, \<open>None\<close> for \<open>undefined\<close>.
\<close>

datatype json =
    JNull
  | JBool bool
  | JNum real
  | JStr jstring
  | JArr "json list"
  | JObj "(jstring \<times> json) list"

text \<open>JavaScript truthiness, as \<open>!content\<close> and \<open>e && e.name\<close> test it.\<close>

fun truthy :: "json option \<Rightarrow> bool" where
  "truthy None = False"
| "truthy (Some JNull) = False"
| "truthy (Some (JBool b)) = b"
| "truthy (Some (JNum r)) = (r \<noteq> 0)"
| "truthy (Some (JStr s)) = (s \<noteq> [])"
| "truthy (Some (JArr xs)) = True"
| "truthy (Some (JObj kvs)) = True"

text \<open>
  \<open>v.p\<close> on a value \<open>v\<close> that is neither \<open>null\<close> nor \<open>undefined\<close>, for the property
  names the source reads (\<open>choices\<close>, \<open>message\<close>, \<open>delta\<close>, \<open>content\<close>, \<open>name\<close>,
  \<open>type\<close>): none of them is a built-in property of a string, an array, a number or a
  boolean, so only an object can hold one.
\<close>

fun js_member :: "json \<Rightarrow> jstring \<Rightarrow> json option" where
  "js_member (JObj kvs) p = map_of kvs p"
| "js_member v p = None"

text \<open>\<open>v?.p\<close>: \<open>undefined\<close> when \<open>v\<close> is \<open>null\<close> or \<open>undefined\<close>.\<close>

fun opt_member :: "json option \<Rightarrow> jstring \<Rightarrow> json option" where
  "opt_member None p = None"
| "opt_member (Some JNull) p = None"
| "opt_member (Some v) p = js_member v p"

text \<open>
  \<open>v?.[0]\<close>: the first element of an array, the first code unit of a string, the
  property \<open>"0"\<close> of an object.
\<close>

fun opt_index0 :: "json option \<Rightarrow> json option" where
  "opt_index0 None = None"
| "opt_index0 (Some (JArr xs)) = (case xs of [] \<Rightarrow> None | x # _ \<Rightarrow> Some x)"
| "opt_index0 (Some (JStr s)) = (case s of [] \<Rightarrow> None | c # _ \<Rightarrow> Some (JStr [c]))"
| "opt_index0 (Some (JObj kvs)) = map_of kvs (lit ''0'')"
| "opt_index0 (Some v) = None"

section \<open>The completion gateway\<close>

text \<open>
  Errors of the gateway, one constructor for each \<open>new Error(...)\<close> of the source and
  one for whatever the runtime throws:
  \<^item> \<open>NotConfigured\<close>: \<open>'NVIDIA_API_KEY is not configured'\<close>;
  \<^item> \<open>ApiError status\<close>: \<open>`NVIDIA API error: ${response.status}`\<close>;
  \<^item> \<open>EmptyResponse\<close>: \<open>'Empty response from AI'\<close>;
  \<^item> \<open>AllFailed\<close>: \<open>'All AI models failed'\<close>;
  \<^item> \<open>NullAccess\<close>: the TypeError of reading a property of \<open>null\<close>;
  \<^item> \<open>NotAFunction\<close>: the TypeError of calling a method the value does not have;
  \<^item> \<open>SyntaxErr\<close>: the SyntaxError of \<open>JSON.parse\<close>;
  \<^item> \<open>Raised msg\<close>: a value thrown by \<open>fetch\<close> or by a body reader (the abort of the
    timeout, a transport error), with its message; the \<open>catch\<close> keeps an Error and
    wraps anything else as \<open>new Error(String(err))\<close>.
\<close>

datatype js_error =
    NotConfigured
  | ApiError nat
  | EmptyResponse
  | AllFailed
  | NullAccess
  | NotAFunction
  | SyntaxErr
  | Raised jstring

datatype role = System | User | Assistant

record chat_message =
  role :: role
  content :: jstring

record chat_options =
  messages :: "chat_message list"
  maxTokens :: "nat option"
  temperature :: "real option"
  model :: "jstring option"

text \<open>The JSON body of the POST.\<close>

record request_body =
  rq_model :: jstring
  rq_messages :: "chat_message list"
  rq_max_tokens :: nat
  rq_temperature :: real
  rq_top_p :: real
  rq_stream :: bool

text \<open>
  What one \<open>fetchWithTimeout\<close> call comes back with: the promise rejects (the timer
  aborted the request, or the transport failed), or a response arrives. Of a response the
  source reads \<open>ok\<close>, \<open>status\<close> and one of \<open>text()\<close> and \<open>json()\<close>, each of which may
  throw in turn.
\<close>

record response =
  ok :: bool
  status :: nat
  text_result :: "jstring + jstring"
  json_result :: "jstring + json"

datatype fetch_outcome = Rejected jstring | Responded response

text \<open>
  The network: the outcome of the \<open>i\<close>-th call of one invocation, given the body sent.
\<close>

type_synonym network = "nat \<Rightarrow> request_body \<Rightarrow> fetch_outcome"

definition MODELS :: "jstring list" where
  "MODELS = [lit ''meta/llama-3.3-70b-instruct'',
             lit ''meta/llama-3.1-70b-instruct'',
             lit ''mistralai/mistral-large-2-instruct'']"

text \<open>\<open>!NVIDIA_API_KEY\<close>: the variable is unset or empty.\<close>

definition key_missing :: "jstring option \<Rightarrow> bool" where
  "key_missing k = (case k of None \<Rightarrow> True | Some s \<Rightarrow> s = [])"

text \<open>\<open>model ? [model, ...MODELS] : MODELS\<close>\<close>

definition modelsToTry :: "jstring option \<Rightarrow> jstring list" where
  "modelsToTry m = (case m of None \<Rightarrow> MODELS
                    | Some s \<Rightarrow> if s \<noteq> [] then s # MODELS else MODELS)"

definition chat_body :: "chat_options \<Rightarrow> bool \<Rightarrow> jstring \<Rightarrow> request_body" where
  "chat_body opts strm currentModel =
     \<lparr> rq_model = currentModel,
       rq_messages = messages opts,
       rq_max_tokens = (case maxTokens opts of None \<Rightarrow> 4096 | Some n \<Rightarrow> n),
       rq_temperature = (case temperature opts of None \<Rightarrow> 0.7 | Some t \<Rightarrow> t),
       rq_top_p = 1.0,
       rq_stream = strm \<rparr>"

text \<open>\<open>data.choices?.[0]?.message?.content\<close>; reading \<open>choices\<close> of \<open>null\<close> throws.\<close>

definition completion_content :: "json \<Rightarrow> js_error + json option" where
  "completion_content data =
     (case data of
        JNull \<Rightarrow> Inl NullAccess
      | _ \<Rightarrow> Inr (opt_member (opt_member (opt_index0 (js_member data (lit ''choices'')))
                                (lit ''message'')) (lit ''content'')))"

text \<open>
  The body of the loop of \<open>nvidiaChat\<close> for one candidate: \<open>Inr content\<close> is the
  \<open>return content\<close>, \<open>Inl e\<close> the value \<open>lastError\<close> takes before \<open>continue\<close>.
\<close>

definition attempt :: "fetch_outcome \<Rightarrow> js_error + json" where
  "attempt outcome =
     (case outcome of
        Rejected msg \<Rightarrow> Inl (Raised msg)
      | Responded r \<Rightarrow>
          if \<not> ok r then
            (case text_result r of
               Inl msg \<Rightarrow> Inl (Raised msg)
             | Inr error \<Rightarrow> Inl (ApiError (status r)))
          else
            (case json_result r of
               Inl msg \<Rightarrow> Inl (Raised msg)
             | Inr data \<Rightarrow>
                 (case completion_content data of
                    Inl e \<Rightarrow> Inl e
                  | Inr c \<Rightarrow> if \<not> truthy c then Inl EmptyResponse else Inr (the c))))"

text \<open>
  \<open>for (const currentModel of modelsToTry)\<close>: the call counter, the candidates left and
  \<open>lastError\<close>. The result carries the bodies of the calls issued, in order.
\<close>

fun try_models ::
  "network \<Rightarrow> chat_options \<Rightarrow> nat \<Rightarrow> jstring list \<Rightarrow> js_error option
     \<Rightarrow> request_body list \<times> (js_error + json)" where
  "try_models net opts i [] lastError =
     ([], Inl (case lastError of Some e \<Rightarrow> e | None \<Rightarrow> AllFailed))"
| "try_models net opts i (currentModel # rest) lastError =
     (let body = chat_body opts False currentModel in
      case attempt (net i body) of
        Inr c \<Rightarrow> ([body], Inr c)
      | Inl e \<Rightarrow>
          (let (calls, res) = try_models net opts (Suc i) rest (Some e)
           in (body # calls, res)))"

definition nvidiaChat ::
  "jstring option \<Rightarrow> network \<Rightarrow> chat_options \<Rightarrow> request_body list \<times> (js_error + json)" where
  "nvidiaChat api_key net opts =
     (if key_missing api_key then ([], Inl NotConfigured)
      else try_models net opts 0 (modelsToTry (model opts)) None)"

text \<open>
  The four ways a candidate fails, as the specification lists them: a transport error or
  a timeout (the promise rejects, or reading the body throws), a response that is not
  2xx, and an empty completion (the content is missing or falsy, or the body is \<open>null\<close>).
\<close>

definition candidate_fails :: "fetch_outcome \<Rightarrow> bool" where
  "candidate_fails outcome =
     (case outcome of
        Rejected msg \<Rightarrow> True
      | Responded r \<Rightarrow>
          if \<not> ok r then True
          else (case json_result r of
                  Inl msg \<Rightarrow> True
                | Inr data \<Rightarrow>
                    (case completion_content data of
                       Inl e \<Rightarrow> True
                     | Inr c \<Rightarrow> \<not> truthy c)))"

text \<open>Concrete requests and networks, for evaluating the gateway.\<close>

definition opts0 :: chat_options where
  "opts0 = \<lparr> messages = [\<lparr> role = User, content = lit ''hi'' \<rparr>],
             maxTokens = None, temperature = None, model = None \<rparr>"

definition completion :: "jstring \<Rightarrow> json" where
  "completion s =
     JObj [(lit ''choices'', JArr [JObj [(lit ''message'', JObj [(lit ''content'', JStr s)])]])]"

definition ok_response :: "json \<Rightarrow> fetch_outcome" where
  "ok_response data =
     Responded \<lparr> ok = True, status = 200, text_result = Inr [], json_result = Inr data \<rparr>"

definition status_response :: "nat \<Rightarrow> fetch_outcome" where
  "status_response st =
     Responded \<lparr> ok = False, status = st, text_result = Inr [], json_result = Inl [] \<rparr>"

definition net_ok :: network where
  "net_ok i body = ok_response (completion (lit ''pong''))"

definition net_second :: network where
  "net_second i body =
     (if i = 0 then status_response 500 else ok_response (completion (lit ''pong'')))"

subsection \<open>Fallback over the candidate list\<close>

lemma attempt_fails_iff: "(\<exists>e. attempt out = Inl e) \<longleftrightarrow> candidate_fails out"
  by (auto simp: attempt_def candidate_fails_def
      split: fetch_outcome.splits sum.splits if_splits)

lemma truthy_the: "truthy c \<Longrightarrow> truthy (Some (the c))"
  by (cases c) auto

lemma attempt_Inr_truthy: "attempt out = Inr c \<Longrightarrow> truthy (Some c)"
  by (auto simp: attempt_def truthy_the split: fetch_outcome.splits sum.splits if_splits)

lemma candidate_fails_cases:
  "candidate_fails (Rejected msg)"
  "\<not> ok r \<Longrightarrow> candidate_fails (Responded r)"
  "ok r \<Longrightarrow> json_result r = Inl msg \<Longrightarrow> candidate_fails (Responded r)"
  "ok r \<Longrightarrow> json_result r = Inr data \<Longrightarrow> completion_content data = Inr c \<Longrightarrow> \<not> truthy c
     \<Longrightarrow> candidate_fails (Responded r)"
  by (simp_all add: candidate_fails_def)

lemma try_models_Inr:
  "try_models net opts i ms le = (calls, Inr c) \<Longrightarrow>
     \<exists>n<length ms. attempt (net (i + n) (chat_body opts False (ms ! n))) = Inr c
        \<and> (\<forall>j<n. candidate_fails (net (i + j) (chat_body opts False (ms ! j))))
        \<and> calls = map (chat_body opts False) (take (Suc n) ms)"
proof (induction ms arbitrary: i le calls)
  case Nil
  then show ?case by simp
next
  case (Cons m ms)
  show ?case
  proof (cases "attempt (net i (chat_body opts False m))")
    case (Inr c')
    with Cons.prems have "c' = c" "calls = [chat_body opts False m]"
      by (auto simp: Let_def)
    with Inr show ?thesis by (intro exI[of _ 0]) simp
  next
    case (Inl e)
    obtain calls' where c': "try_models net opts (Suc i) ms (Some e) = (calls', Inr c)"
      and calls: "calls = chat_body opts False m # calls'"
      using Cons.prems Inl by (auto simp: Let_def split: prod.splits)
    from Cons.IH[OF c'] obtain n where n: "n < length ms"
      "attempt (net (Suc i + n) (chat_body opts False (ms ! n))) = Inr c"
      "\<forall>j<n. candidate_fails (net (Suc i + j) (chat_body opts False (ms ! j)))"
      "calls' = map (chat_body opts False) (take (Suc n) ms)" by blast
    have f0: "candidate_fails (net i (chat_body opts False m))"
      using Inl attempt_fails_iff by blast
    have "\<forall>j<Suc n. candidate_fails (net (i + j) (chat_body opts False ((m # ms) ! j)))"
    proof (intro allI impI)
      fix j assume "j < Suc n"
      then show "candidate_fails (net (i + j) (chat_body opts False ((m # ms) ! j)))"
        using f0 n(3) by (cases j) auto
    qed
    with n calls show ?thesis by (intro exI[of _ "Suc n"]) simp
  qed
qed

lemma try_models_Inl:
  "try_models net opts i ms le = (calls, Inl e) \<Longrightarrow>
     (\<forall>j<length ms. candidate_fails (net (i + j) (chat_body opts False (ms ! j))))
     \<and> calls = map (chat_body opts False) ms
     \<and> (if ms = [] then e = (case le of Some e' \<Rightarrow> e' | None \<Rightarrow> AllFailed)
        else attempt (net (i + (length ms - 1)) (chat_body opts False (last ms))) = Inl e)"
proof (induction ms arbitrary: i le calls)
  case Nil
  then show ?case by simp
next
  case (Cons m ms)
  show ?case
  proof (cases "attempt (net i (chat_body opts False m))")
    case (Inr c')
    with Cons.prems show ?thesis by (auto simp: Let_def)
  next
    case (Inl e0)
    obtain calls' where c': "try_models net opts (Suc i) ms (Some e0) = (calls', Inl e)"
      and calls: "calls = chat_body opts False m # calls'"
      using Cons.prems Inl by (auto simp: Let_def split: prod.splits)
    note IH = Cons.IH[OF c']
    have f0: "candidate_fails (net i (chat_body opts False m))"
      using Inl attempt_fails_iff by blast
    have a: "\<forall>j<length (m # ms).
               candidate_fails (net (i + j) (chat_body opts False ((m # ms) ! j)))"
    proof (intro allI impI)
      fix j assume "j < length (m # ms)"
      then show "candidate_fails (net (i + j) (chat_body opts False ((m # ms) ! j)))"
        using f0 IH by (cases j) auto
    qed
    have b: "calls = map (chat_body opts False) (m # ms)" using IH calls by simp
    have c: "attempt (net (i + (length (m # ms) - 1))
                          (chat_body opts False (last (m # ms)))) = Inl e"
    proof (cases "ms = []")
      case True
      with IH Inl show ?thesis by simp
    next
      case False
      then have "length ms - 1 + 1 = length ms" by (cases ms) auto
      with False IH show ?thesis by (simp add: add.commute add.left_commute)
    qed
    from a b c show ?thesis by simp
  qed
qed

lemma modelsToTry_nonempty: "modelsToTry m \<noteq> []"
  by (simp add: modelsToTry_def MODELS_def split: option.splits)

text \<open>
  Claim C1, as stated, fails: with the credential unset the gateway raises
  \<open>NotConfigured\<close> at once, before any candidate was tried, on a network where the
  first candidate would have answered.
\<close>

theorem nvidiaChat_unconfigured_counterexample:
  "nvidiaChat None net_ok opts0 = ([], Inl NotConfigured)
   \<and> \<not> candidate_fails (net_ok 0 (chat_body opts0 False (modelsToTry (model opts0) ! 0)))"
  by (simp add: nvidiaChat_def key_missing_def net_ok_def ok_response_def
      candidate_fails_def completion_content_def completion_def lit_def)

text \<open>
  Claim C1, amended: when the credential is configured, the candidates are the caller's
  model (if given and not empty) followed by \<open>MODELS\<close>; they are called in that order,
  one call each. When \<open>nvidiaChat\<close> returns a completion \<open>c\<close>, it is the truthy content
  of the first candidate that does not fail, every candidate before it failed, and no
  later candidate was called. When it raises \<open>e\<close>, every candidate was called and
  failed, and \<open>e\<close> is the error of the last candidate.
\<close>

theorem nvidiaChat_fallback:
  assumes "\<not> key_missing api_key"
  shows "modelsToTry (model opts) =
           (case model opts of None \<Rightarrow> [] | Some m \<Rightarrow> if m = [] then [] else [m]) @ MODELS
       \<and> (case nvidiaChat api_key net opts of
            (calls, Inr c) \<Rightarrow>
              (\<exists>n<length (modelsToTry (model opts)).
                  attempt (net n (chat_body opts False (modelsToTry (model opts) ! n))) = Inr c
                \<and> truthy (Some c)
                \<and> (\<forall>j<n. candidate_fails
                            (net j (chat_body opts False (modelsToTry (model opts) ! j))))
                \<and> calls = map (chat_body opts False) (take (Suc n) (modelsToTry (model opts))))
          | (calls, Inl e) \<Rightarrow>
              (\<forall>j<length (modelsToTry (model opts)).
                  candidate_fails (net j (chat_body opts False (modelsToTry (model opts) ! j))))
              \<and> calls = map (chat_body opts False) (modelsToTry (model opts))
              \<and> attempt (net (length (modelsToTry (model opts)) - 1)
                              (chat_body opts False (last (modelsToTry (model opts))))) = Inl e)"
proof -
  let ?ms = "modelsToTry (model opts)"
  have cands: "?ms = (case model opts of None \<Rightarrow> [] | Some m \<Rightarrow> if m = [] then [] else [m]) @ MODELS"
    by (simp add: modelsToTry_def split: option.splits)
  obtain calls res where r: "nvidiaChat api_key net opts = (calls, res)"
    by (cases "nvidiaChat api_key net opts")
  with assms have t: "try_models net opts 0 ?ms None = (calls, res)"
    by (simp add: nvidiaChat_def)
  have "case (calls, res) of
            (calls, Inr c) \<Rightarrow>
              (\<exists>n<length ?ms.
                  attempt (net n (chat_body opts False (?ms ! n))) = Inr c
                \<and> truthy (Some c)
                \<and> (\<forall>j<n. candidate_fails (net j (chat_body opts False (?ms ! j))))
                \<and> calls = map (chat_body opts False) (take (Suc n) ?ms))
          | (calls, Inl e) \<Rightarrow>
              (\<forall>j<length ?ms. candidate_fails (net j (chat_body opts False (?ms ! j))))
              \<and> calls = map (chat_body opts False) ?ms
              \<and> attempt (net (length ?ms - 1) (chat_body opts False (last ?ms))) = Inl e"
  proof (cases res)
    case (Inr c)
    with t have "try_models net opts 0 ?ms None = (calls, Inr c)" by simp
    from try_models_Inr[OF this] obtain n where n: "n < length ?ms"
      "attempt (net n (chat_body opts False (?ms ! n))) = Inr c"
      "\<forall>j<n. candidate_fails (net j (chat_body opts False (?ms ! j)))"
      "calls = map (chat_body opts False) (take (Suc n) ?ms)" by auto
    moreover from n(2) have "truthy (Some c)" by (rule attempt_Inr_truthy)
    ultimately show ?thesis using Inr by auto
  next
    case (Inl e)
    with t have "try_models net opts 0 ?ms None = (calls, Inl e)" by simp
    from try_models_Inl[OF this] modelsToTry_nonempty[of "model opts"] Inl
    show ?thesis by simp
  qed
  with r cands show ?thesis by simp
qed

theorem nvidiaChat_fallback_witness:
  "\<not> key_missing (Some (lit ''k''))
   \<and> nvidiaChat (Some (lit ''k'')) net_second opts0 =
       ([chat_body opts0 False (MODELS ! 0), chat_body opts0 False (MODELS ! 1)],
        Inr (JStr (lit ''pong'')))
   \<and> candidate_fails (net_second 0 (chat_body opts0 False (MODELS ! 0)))
   \<and> attempt (net_second 1 (chat_body opts0 False (MODELS ! 1))) = Inr (JStr (lit ''pong''))"
  using nvidiaChat_fallback [of "Some (lit ''k'')" opts0 net_second]
  by (simp add: nvidiaChat_def key_missing_def net_second_def ok_response_def
      status_response_def attempt_def candidate_fails_def completion_content_def
      completion_def lit_def modelsToTry_def opts0_def MODELS_def)

section \<open>JavaScript string operations\<close>

text \<open>
  The code units \<open>trim()\<close> strips and the regular expression \<open>\s\<close> matches: the
  white space and the line terminators of ECMAScript (tab, LF, VT, FF, CR, space,
  U+00A0, U+1680, U+2000 to U+200A, U+2028, U+2029, U+202F, U+205F, U+3000, U+FEFF).
\<close>

definition is_space :: "nat \<Rightarrow> bool" where
  "is_space c = (c \<in> set [9, 10, 11, 12, 13, 32, 160, 5760, 8232, 8233, 8239, 8287, 12288, 65279]
                 \<or> (8192 \<le> c \<and> c \<le> 8202))"

definition trim :: "jstring \<Rightarrow> jstring" where
  "trim s = rev (dropWhile is_space (rev (dropWhile is_space s)))"

definition startsWith :: "jstring \<Rightarrow> jstring \<Rightarrow> bool" where
  "startsWith s p = (take (length p) s = p)"

text \<open>\<open>s.split(sep)\<close> for a separator of one code unit: one more field than separators.\<close>

fun split_on :: "nat \<Rightarrow> jstring \<Rightarrow> jstring list" where
  "split_on sep [] = [[]]"
| "split_on sep (c # cs) =
     (if c = sep then [] # split_on sep cs
      else (case split_on sep cs of
              [] \<Rightarrow> [[c]]
            | f # fs \<Rightarrow> (c # f) # fs))"

text \<open>
  \<open>s.replace(/PAT\n?/g, '')\<close> for a literal \<open>PAT\<close>: every match is removed, scanning from
  the left, and a match takes the line feed after it when there is one.
\<close>

definition drop_newline :: "jstring \<Rightarrow> jstring" where
  "drop_newline s = (case s of [] \<Rightarrow> [] | c # cs \<Rightarrow> if c = 10 then cs else c # cs)"

lemma length_drop_newline: "length (drop_newline s) \<le> length s"
  by (cases s) (simp_all add: drop_newline_def)

function remove_fence :: "jstring \<Rightarrow> jstring \<Rightarrow> jstring" where
  "remove_fence pat [] = []"
| "remove_fence pat (c # cs) =
     (if pat \<noteq> [] \<and> startsWith (c # cs) pat
      then remove_fence pat (drop_newline (drop (length pat) (c # cs)))
      else c # remove_fence pat cs)"
  by pat_completeness auto
termination
proof (relation "measure (\<lambda>(pat, s). length s)")
  show "wf (measure (\<lambda>(pat, s). length s))" by simp
next
  fix pat :: jstring and c cs
  assume "pat \<noteq> [] \<and> startsWith (c # cs) pat"
  then have "0 < length pat" by simp
  then have "length (drop (length pat) (c # cs)) < length (c # cs)" by simp
  moreover have "length (drop_newline (drop (length pat) (c # cs)))
                   \<le> length (drop (length pat) (c # cs))"
    by (rule length_drop_newline)
  ultimately show "((pat, drop_newline (drop (length pat) (c # cs))), (pat, c # cs))
                     \<in> measure (\<lambda>(pat, s). length s)" by simp
next
  fix pat :: jstring and c cs
  show "((pat, cs), (pat, c # cs)) \<in> measure (\<lambda>(pat, s). length s)" by simp
qed

section \<open>The streaming gateway\<close>

text \<open>
  \<open>JSON.parse\<close> and \<open>JSON.stringify\<close> are built in: the model takes them as
  parameters. \<open>parse s = None\<close> is the SyntaxError.
\<close>

type_synonym parser = "jstring \<Rightarrow> json option"
type_synonym printer = "json \<Rightarrow> jstring"

text \<open>
  What \<open>reader.read()\<close> gives, one item a call: the decoded text of a chunk, or a
  failure of the read. When the items are used up the read reports \<open>done\<close>.
\<close>

datatype read_item = Chunk jstring | ReadError jstring

datatype stream_state = Readable | Closed | Errored js_error

definition done_event :: jstring where
  "done_event = lit ''data: [DONE]'' @ [10, 10]"

text \<open>\<open>`data: ${JSON.stringify({ content })}\n\n`\<close>\<close>

definition content_event :: "printer \<Rightarrow> json \<Rightarrow> jstring" where
  "content_event stringify c = lit ''data: '' @ stringify (JObj [(lit ''content'', c)]) @ [10, 10]"

text \<open>
  The inner \<open>try\<close> of \<open>pull\<close>: the event a data line yields, if any. A line that does
  not parse, and a line that parses to \<open>null\<close> (reading \<open>choices\<close> throws), are caught
  and skipped.
\<close>

definition delta_event :: "parser \<Rightarrow> printer \<Rightarrow> jstring \<Rightarrow> jstring option" where
  "delta_event parse stringify data =
     (case parse data of
        None \<Rightarrow> None
      | Some JNull \<Rightarrow> None
      | Some parsed \<Rightarrow>
          (let c = opt_member (opt_member (opt_index0 (js_member parsed (lit ''choices'')))
                                 (lit ''delta'')) (lit ''content'')
           in if truthy c then Some (content_event stringify (the c)) else None))"

text \<open>
  \<open>for (const line of lines)\<close>: the events enqueued, and whether the loop closed the
  stream at an upstream \<open>[DONE]\<close>.
\<close>

fun process_lines :: "parser \<Rightarrow> printer \<Rightarrow> jstring list \<Rightarrow> jstring list \<times> bool" where
  "process_lines parse stringify [] = ([], False)"
| "process_lines parse stringify (line # rest) =
     (if startsWith line (lit ''data: '') then
        (let data = trim (drop 6 line) in
         if data = lit ''[DONE]'' then ([done_event], True)
         else (case delta_event parse stringify data of
                 None \<Rightarrow> process_lines parse stringify rest
               | Some ev \<Rightarrow>
                   (let (evs, closed) = process_lines parse stringify rest
                    in (ev # evs, closed))))
      else process_lines parse stringify rest)"

text \<open>
  One call of \<open>pull\<close>, given what its \<open>reader.read()\<close> resolves to (\<open>None\<close> is
  \<open>done\<close>): the events it enqueues and the state it leaves the stream in. A failed read
  goes to \<open>controller.error\<close>.
\<close>

definition pull :: "parser \<Rightarrow> printer \<Rightarrow> read_item option \<Rightarrow> jstring list \<times> stream_state" where
  "pull parse stringify item =
     (case item of
        None \<Rightarrow> ([done_event], Closed)
      | Some (ReadError msg) \<Rightarrow> ([], Errored (Raised msg))
      | Some (Chunk text) \<Rightarrow>
          (let (evs, closed) = process_lines parse stringify (split_on 10 text)
           in (evs, if closed then Closed else Readable)))"

text \<open>
  The first \<open>n\<close> calls of \<open>pull\<close> on a stream whose reader gives \<open>items\<close>: what they
  enqueue, in order, and the state of the stream after them. The stream calls \<open>pull\<close>
  one call at a time and never on a closed or errored stream; how many calls it makes is
  up to the runtime and the consumer (a ReadableStream calls \<open>pull\<close> again after a call
  that enqueued something, or when a new read request arrives), so \<open>n\<close> is a parameter.
\<close>

fun pull_n :: "parser \<Rightarrow> printer \<Rightarrow> nat \<Rightarrow> read_item list \<Rightarrow> jstring list \<times> stream_state" where
  "pull_n parse stringify 0 items = ([], Readable)"
| "pull_n parse stringify (Suc n) [] = pull parse stringify None"
| "pull_n parse stringify (Suc n) (item # rest) =
     (let (evs, st) = pull parse stringify (Some item) in
      if st = Readable
      then (let (evs', st') = pull_n parse stringify n rest in (evs @ evs', st'))
      else (evs, st))"

text \<open>
  The response to the streaming request: \<open>body\<close> is \<open>None\<close> when \<open>response.body\<close> is
  \<open>null\<close>, else the items its reader will give.
\<close>

record stream_response =
  s_ok :: bool
  s_status :: nat
  s_text_result :: "jstring + jstring"
  s_body :: "read_item list option"

datatype stream_outcome = StreamRejected jstring | StreamResponded stream_response

text \<open>
  \<open>nvidiaChatStream\<close> up to the \<open>return\<close>: an error, or the stream it returns, which
  is given by the items its reader will read; \<open>pull\<close> above is the stream's \<open>pull\<close>.
  The errors: a gateway error, or
  \<open>`NVIDIA API stream error ${response.status}: ${error}`\<close>, or
  \<open>'No response body for streaming'\<close>.
\<close>

datatype stream_error = Gateway js_error | StreamApiError nat jstring | NoBody

definition nvidiaChatStream ::
  "jstring option \<Rightarrow> (request_body \<Rightarrow> stream_outcome) \<Rightarrow> chat_options
     \<Rightarrow> stream_error + read_item list" where
  "nvidiaChatStream api_key net opts =
     (if key_missing api_key then Inl (Gateway NotConfigured)
      else
        (let currentModel = (case model opts of None \<Rightarrow> MODELS ! 0
                             | Some m \<Rightarrow> if m \<noteq> [] then m else MODELS ! 0)
         in case net (chat_body opts True currentModel) of
              StreamRejected msg \<Rightarrow> Inl (Gateway (Raised msg))
            | StreamResponded r \<Rightarrow>
                if \<not> s_ok r then
                  (case s_text_result r of
                     Inl msg \<Rightarrow> Inl (Gateway (Raised msg))
                   | Inr error \<Rightarrow> Inl (StreamApiError (s_status r) error))
                else
                  (case s_body r of
                     None \<Rightarrow> Inl NoBody
                   | Some items \<Rightarrow> Inr items)))"

text \<open>The upstream of the specification's example, its parse and a printer for it.\<close>

definition hi_json :: jstring where
  "hi_json = lit ''{\"choices\":[{\"delta\":{\"content\":\"Hi\"}}]}''"

definition hi_value :: json where
  "hi_value =
     JObj [(lit ''choices'', JArr [JObj [(lit ''delta'', JObj [(lit ''content'', JStr (lit ''Hi''))])]])]"

definition parse_hi :: parser where
  "parse_hi s = (if s = hi_json then Some hi_value else None)"

subsection \<open>Re-framing of the upstream events\<close>

text \<open>
  The example of the specification, when each upstream event arrives in a chunk of its
  own: the first call enqueues the re-framed content event, the second the sentinel, and
  closes the stream.
\<close>

lemma pull_n_example_aligned:
  assumes "parse hi_json = Some hi_value"
  shows "pull_n parse stringify (Suc (Suc n))
           [Chunk (lit ''data: '' @ hi_json @ [10, 10]), Chunk (lit ''data: [DONE]'' @ [10, 10])]
         = ([content_event stringify (JStr (lit ''Hi'')), done_event], Closed)"
  using assms
  by (simp add: pull_def hi_json_def hi_value_def lit_def startsWith_def trim_def is_space_def
      delta_event_def done_event_def)

lemma pull_exhausted: "pull parse stringify None = ([done_event], Closed)"
  by (simp add: pull_def)

lemma pull_read_error: "pull parse stringify (Some (ReadError msg)) = ([], Errored (Raised msg))"
  by (simp add: pull_def)

text \<open>
  Claim C5 at the failing input: the same upstream text, delivered by the transport in
  three chunks of which the first ends inside the data line. \<open>pull\<close> splits each chunk
  into lines on its own and keeps nothing between reads: the call that reads the first
  half of the line finds that it does not parse and skips it, the call that reads the
  second half finds no line starting with \<open>data: \<close>; both enqueue nothing and leave the
  stream open. However many calls the stream makes, nothing but the sentinel is ever
  enqueued: the delta \<open>Hi\<close> is lost.
\<close>

theorem pull_split_line_lost:
  assumes "parse (lit ''{\"choices\":[{\"delta\"'') = None"
  shows "lit ''data: {\"choices\":[{\"delta\"'' @ lit '':{\"content\":\"Hi\"}}]}'' @ [10, 10]
           = lit ''data: '' @ hi_json @ [10, 10]
       \<and> pull parse stringify (Some (Chunk (lit ''data: {\"choices\":[{\"delta\"'')))
           = ([], Readable)
       \<and> pull parse stringify (Some (Chunk (lit '':{\"content\":\"Hi\"}}]}'' @ [10, 10])))
           = ([], Readable)
       \<and> (\<forall>n. set (fst (pull_n parse stringify n
                   [Chunk (lit ''data: {\"choices\":[{\"delta\"''),
                    Chunk (lit '':{\"content\":\"Hi\"}}]}'' @ [10, 10]),
                    Chunk (lit ''data: [DONE]'' @ [10, 10])])) \<subseteq> {done_event})"
proof -
  let ?c1 = "Chunk (lit ''data: {\"choices\":[{\"delta\"'')"
  let ?c2 = "Chunk (lit '':{\"content\":\"Hi\"}}]}'' @ [10, 10])"
  let ?c3 = "Chunk (lit ''data: [DONE]'' @ [10, 10])"
  have e: "lit ''data: {\"choices\":[{\"delta\"'' @ lit '':{\"content\":\"Hi\"}}]}'' @ [10, 10]
           = lit ''data: '' @ hi_json @ [10, 10]"
    by (simp add: hi_json_def lit_def)
  have p1: "pull parse stringify (Some ?c1) = ([], Readable)"
    using assms
    by (simp add: pull_def lit_def startsWith_def trim_def is_space_def delta_event_def)
  have p2: "pull parse stringify (Some ?c2) = ([], Readable)"
    by (simp add: pull_def lit_def startsWith_def)
  have p3: "pull parse stringify (Some ?c3) = ([done_event], Closed)"
    by (simp add: pull_def lit_def startsWith_def trim_def is_space_def done_event_def)
  have "set (fst (pull_n parse stringify n [?c1, ?c2, ?c3])) \<subseteq> {done_event}" for n
  proof (cases n)
    case 0
    then show ?thesis by simp
  next
    case (Suc a)
    show ?thesis
    proof (cases a)
      case 0
      with Suc show ?thesis by (simp add: p1)
    next
      case (Suc b)
      with \<open>n = Suc a\<close> show ?thesis by (cases b) (simp_all add: p1 p2 p3)
    qed
  qed
  with e p1 p2 show ?thesis by blast
qed

theorem pull_split_line_lost_witness:
  "parse_hi (lit ''{\"choices\":[{\"delta\"'') = None
   \<and> pull_n parse_hi (\<lambda>v. []) 2
           [Chunk (lit ''data: {\"choices\":[{\"delta\"''),
            Chunk (lit '':{\"content\":\"Hi\"}}]}'' @ [10, 10]),
            Chunk (lit ''data: [DONE]'' @ [10, 10])]
         = ([], Readable)
   \<and> pull_n parse_hi (\<lambda>v. []) 3
           [Chunk (lit ''data: {\"choices\":[{\"delta\"''),
            Chunk (lit '':{\"content\":\"Hi\"}}]}'' @ [10, 10]),
            Chunk (lit ''data: [DONE]'' @ [10, 10])]
         = ([done_event], Closed)
   \<and> pull_n parse_hi (\<lambda>v. []) 2
           [Chunk (lit ''data: '' @ hi_json @ [10, 10]), Chunk (lit ''data: [DONE]'' @ [10, 10])]
         = ([content_event (\<lambda>v. []) (JStr (lit ''Hi'')), done_event], Closed)"
proof -
  have p: "parse_hi (lit ''{\"choices\":[{\"delta\"'') = None"
    by (simp add: parse_hi_def hi_json_def lit_def)
  have q: "parse_hi hi_json = Some hi_value"
    by (simp add: parse_hi_def)
  from p have t: "pull parse_hi (\<lambda>v. []) (Some (Chunk (lit ''data: {\"choices\":[{\"delta\"'')))
           = ([], Readable)
       \<and> pull parse_hi (\<lambda>v. []) (Some (Chunk (lit '':{\"content\":\"Hi\"}}]}'' @ [10, 10])))
           = ([], Readable)"
    using pull_split_line_lost [where parse = parse_hi and stringify = "\<lambda>v. []"] by blast
  have d: "pull parse_hi (\<lambda>v. []) (Some (Chunk (lit ''data: [DONE]'' @ [10, 10])))
             = ([done_event], Closed)"
    by (simp add: pull_def lit_def startsWith_def trim_def is_space_def done_event_def)
  have two: "(2::nat) = Suc (Suc 0)" and three: "(3::nat) = Suc (Suc (Suc 0))" by simp_all
  have a: "pull_n parse_hi (\<lambda>v. []) 2
           [Chunk (lit ''data: {\"choices\":[{\"delta\"''),
            Chunk (lit '':{\"content\":\"Hi\"}}]}'' @ [10, 10]),
            Chunk (lit ''data: [DONE]'' @ [10, 10])]
         = ([], Readable)"
    unfolding two using t by simp
  have b: "pull_n parse_hi (\<lambda>v. []) 3
           [Chunk (lit ''data: {\"choices\":[{\"delta\"''),
            Chunk (lit '':{\"content\":\"Hi\"}}]}'' @ [10, 10]),
            Chunk (lit ''data: [DONE]'' @ [10, 10])]
         = ([done_event], Closed)"
    unfolding three using t d by simp
  have c: "pull_n parse_hi (\<lambda>v. []) 2
           [Chunk (lit ''data: '' @ hi_json @ [10, 10]), Chunk (lit ''data: [DONE]'' @ [10, 10])]
         = ([content_event (\<lambda>v. []) (JStr (lit ''Hi'')), done_event], Closed)"
    unfolding two using pull_n_example_aligned [where parse = parse_hi and n = 0 and stringify = "\<lambda>v. []"] q
    by simp
  from p a b c show ?thesis by blast
qed

section \<open>The structured extractors\<close>

definition summary_prompt :: jstring where
  "summary_prompt = lit ''You are a summarization expert. Provide a concise, informative summary of the given text in 2-3 sentences. Include key points and main ideas.''"

text \<open>The template literal of \<open>extractEntitiesWithTypes\<close>; 8212 is its em dash.\<close>

definition entity_prompt :: jstring where
  "entity_prompt =
     lit ''Extract key entities from the text and classify each into one of these types:'' @ [10]
   @ lit ''- \"entity\": Specific named things '' @ [8212]
   @ lit '' people, organizations, products, places, technologies, tools (e.g. Google, PostgreSQL, Elon Musk)'' @ [10]
   @ lit ''- \"concept\": Abstract topics, fields, methodologies, theories (e.g. Machine Learning, Normalization, ACID Properties)'' @ [10]
   @ lit ''- \"idea\": Opinions, insights, proposals, hypotheses, arguments (e.g. \"data should be normalized\", \"NoSQL is better for scale\")'' @ [10]
   @ [10]
   @ lit ''Return ONLY a JSON array of objects with \"name\" and \"type\" fields.'' @ [10]
   @ lit ''Example: [{\"name\":\"React\",\"type\":\"entity\"},{\"name\":\"Machine Learning\",\"type\":\"concept\"},{\"name\":\"Components should be pure\",\"type\":\"idea\"}]'' @ [10]
   @ lit ''No explanations, no markdown.''"

definition keypoints_prompt :: jstring where
  "keypoints_prompt = lit ''Extract the key points from the given text. Return ONLY a JSON array of strings. Example: [\"Point one\", \"Point two\"]. No explanations.''"

definition summary_request :: "jstring \<Rightarrow> chat_options" where
  "summary_request text =
     \<lparr> messages = [\<lparr> role = System, content = summary_prompt \<rparr>,
                    \<lparr> role = User, content = take 6000 text \<rparr>],
       maxTokens = Some 300, temperature = Some 0.3, model = None \<rparr>"

definition generateSummary ::
  "jstring option \<Rightarrow> network \<Rightarrow> jstring \<Rightarrow> request_body list \<times> (js_error + json)" where
  "generateSummary api_key net text = nvidiaChat api_key net (summary_request text)"

datatype entity_type = Concept | Entity | Idea

record typed_entity =
  name :: jstring
  etype :: entity_type

text \<open>
  \<open>response.replace(/```json\n?/g, '').replace(/```\n?/g, '').trim()\<close>; 96 is the
  backquote.
\<close>

definition clean_response :: "jstring \<Rightarrow> jstring" where
  "clean_response s =
     trim (remove_fence [96, 96, 96] (remove_fence ([96, 96, 96] @ lit ''json'') s))"

text \<open>\<open>e && e.name && typeof e.name === 'string'\<close>\<close>

definition valid_entity :: "json \<Rightarrow> bool" where
  "valid_entity e =
     (truthy (Some e) \<and> truthy (js_member e (lit ''name''))
      \<and> (case js_member e (lit ''name'') of Some (JStr s) \<Rightarrow> True | _ \<Rightarrow> False))"

text \<open>\<open>['concept', 'entity', 'idea'].includes(e.type) ? e.type : 'entity'\<close>\<close>

definition entity_type_of :: "json option \<Rightarrow> entity_type" where
  "entity_type_of t =
     (case t of
        Some (JStr s) \<Rightarrow>
          if s = lit ''concept'' then Concept
          else if s = lit ''entity'' then Entity
          else if s = lit ''idea'' then Idea
          else Entity
      | _ \<Rightarrow> Entity)"

definition to_typed_entity :: "json \<Rightarrow> typed_entity" where
  "to_typed_entity e =
     \<lparr> name = (case js_member e (lit ''name'') of Some (JStr s) \<Rightarrow> s | _ \<Rightarrow> []),
       etype = entity_type_of (js_member e (lit ''type'')) \<rparr>"

text \<open>
  The \<open>try\<close> block of \<open>extractEntitiesWithTypes\<close> after the gateway has answered. The
  gateway returns whatever truthy content the model sent; \<open>replace\<close> exists on a string
  only.
\<close>

definition entities_of_response :: "parser \<Rightarrow> json \<Rightarrow> js_error + typed_entity list" where
  "entities_of_response parse response =
     (case response of
        JStr s \<Rightarrow>
          (case parse (clean_response s) of
             None \<Rightarrow> Inl SyntaxErr
           | Some parsed \<Rightarrow>
               (case parsed of
                  JArr xs \<Rightarrow> Inr (take 20 (map to_typed_entity (filter valid_entity xs)))
                | _ \<Rightarrow> Inr []))
      | _ \<Rightarrow> Inl NotAFunction)"

definition entity_request :: "jstring \<Rightarrow> chat_options" where
  "entity_request text =
     \<lparr> messages = [\<lparr> role = System, content = entity_prompt \<rparr>,
                    \<lparr> role = User, content = take 4000 text \<rparr>],
       maxTokens = Some 1024, temperature = Some 0.1, model = None \<rparr>"

text \<open>The result carries the requests issued; the list is what the function returns.\<close>

definition extractEntitiesWithTypes ::
  "jstring option \<Rightarrow> network \<Rightarrow> parser \<Rightarrow> jstring \<Rightarrow> request_body list \<times> typed_entity list" where
  "extractEntitiesWithTypes api_key net parse text =
     (let (calls, res) = nvidiaChat api_key net (entity_request text) in
      (calls,
       case res of
         Inl e \<Rightarrow> []
       | Inr response \<Rightarrow>
           (case entities_of_response parse response of
              Inl e \<Rightarrow> []
            | Inr typed \<Rightarrow> typed)))"

definition extractEntities ::
  "jstring option \<Rightarrow> network \<Rightarrow> parser \<Rightarrow> jstring \<Rightarrow> request_body list \<times> jstring list" where
  "extractEntities api_key net parse text =
     (let (calls, typed) = extractEntitiesWithTypes api_key net parse text
      in (calls, map name typed))"

text \<open>\<open>Array.isArray(parsed) ? parsed.slice(0, 10) : []\<close>\<close>

definition keypoints_of_response :: "parser \<Rightarrow> json \<Rightarrow> js_error + json list" where
  "keypoints_of_response parse response =
     (case response of
        JStr s \<Rightarrow>
          (case parse (clean_response s) of
             None \<Rightarrow> Inl SyntaxErr
           | Some parsed \<Rightarrow>
               (case parsed of
                  JArr xs \<Rightarrow> Inr (take 10 xs)
                | _ \<Rightarrow> Inr []))
      | _ \<Rightarrow> Inl NotAFunction)"

definition keypoints_request :: "jstring \<Rightarrow> chat_options" where
  "keypoints_request text =
     \<lparr> messages = [\<lparr> role = System, content = keypoints_prompt \<rparr>,
                    \<lparr> role = User, content = take 4000 text \<rparr>],
       maxTokens = Some 1024, temperature = Some 0.2, model = None \<rparr>"

definition extractKeyPoints ::
  "jstring option \<Rightarrow> network \<Rightarrow> parser \<Rightarrow> jstring \<Rightarrow> request_body list \<times> json list" where
  "extractKeyPoints api_key net parse text =
     (let (calls, res) = nvidiaChat api_key net (keypoints_request text) in
      (calls,
       case res of
         Inl e \<Rightarrow> []
       | Inr response \<Rightarrow>
           (case keypoints_of_response parse response of
              Inl e \<Rightarrow> []
            | Inr points \<Rightarrow> points)))"

text \<open>The array-of-string contract of the key points.\<close>

definition is_text :: "json \<Rightarrow> bool" where
  "is_text v = (case v of JStr s \<Rightarrow> True | _ \<Rightarrow> False)"

text \<open>Model answers and their parses, for evaluating the extractors.\<close>

definition fenced_entities :: jstring where
  "fenced_entities =
     [96, 96, 96] @ lit ''json'' @ [10]
     @ lit ''[{\"name\":\"React\",\"type\":\"idea\"},{\"name\":\"\"},7,{\"name\":\"Go\",\"type\":\"tool\"}]''
     @ [10] @ [96, 96, 96]"

definition parse_entities :: parser where
  "parse_entities s =
     (if s = lit ''[{\"name\":\"React\",\"type\":\"idea\"},{\"name\":\"\"},7,{\"name\":\"Go\",\"type\":\"tool\"}]''
      then Some (JArr [JObj [(lit ''name'', JStr (lit ''React'')), (lit ''type'', JStr (lit ''idea''))],
                       JObj [(lit ''name'', JStr [])],
                       JNum 7,
                       JObj [(lit ''name'', JStr (lit ''Go'')), (lit ''type'', JStr (lit ''tool''))]])
      else None)"

definition net_answers :: "jstring \<Rightarrow> network" where
  "net_answers s i body = ok_response (completion s)"

definition parse_points :: parser where
  "parse_points s =
     (if s = lit ''[1, {}]'' then Some (JArr [JNum 1, JObj []]) else None)"

subsection \<open>Typed entities\<close>

lemma try_models_messages:
  "b \<in> set (fst (try_models net opts i ms le)) \<Longrightarrow> rq_messages b = messages opts"
proof (induction ms arbitrary: i le)
  case Nil
  then show ?case by simp
next
  case (Cons m ms)
  show ?case
  proof (cases "attempt (net i (chat_body opts False m))")
    case (Inr c)
    with Cons.prems show ?thesis by (simp add: chat_body_def)
  next
    case (Inl e)
    obtain calls res where t: "try_models net opts (Suc i) ms (Some e) = (calls, res)"
      by (cases "try_models net opts (Suc i) ms (Some e)")
    with Cons.prems Inl have "b = chat_body opts False m \<or> b \<in> set calls" by simp
    then show ?thesis
    proof
      assume "b = chat_body opts False m"
      then show ?thesis by (simp add: chat_body_def)
    next
      assume "b \<in> set calls"
      with t have "b \<in> set (fst (try_models net opts (Suc i) ms (Some e)))" by simp
      then show ?thesis by (rule Cons.IH)
    qed
  qed
qed

lemma nvidiaChat_messages:
  "b \<in> set (fst (nvidiaChat api_key net opts)) \<Longrightarrow> rq_messages b = messages opts"
  by (auto simp: nvidiaChat_def dest: try_models_messages split: if_splits)

lemma valid_entity_iff:
  "valid_entity e \<longleftrightarrow> (\<exists>kvs s. e = JObj kvs \<and> map_of kvs (lit ''name'') = Some (JStr s) \<and> s \<noteq> [])"
  by (cases e) (auto simp: valid_entity_def split: option.splits json.splits)

lemma name_to_typed_entity: "valid_entity e \<Longrightarrow> name (to_typed_entity e) \<noteq> [] \<and> js_member e (lit ''name'') = Some (JStr (name (to_typed_entity e)))"
  by (auto simp: valid_entity_iff to_typed_entity_def)

lemma entities_of_response_names:
  "entities_of_response parse response = Inr typed \<Longrightarrow> te \<in> set typed \<Longrightarrow> name te \<noteq> []"
  by (auto simp: entities_of_response_def name_to_typed_entity split: json.splits option.splits dest!: in_set_takeD)

lemma entities_of_response_length:
  "entities_of_response parse response = Inr typed \<Longrightarrow> length typed \<le> 20"
  by (auto simp: entities_of_response_def split: json.splits option.splits)

text \<open>
  Claim C6: \<open>extractEntitiesWithTypes\<close> depends on the first 4000 code units of its
  input only, and every request it issues carries exactly that prefix as the user message.
  It returns a list whatever the gateway and the parser do: the empty list when the
  gateway raises, when the answer is not a string, when the cleaned answer does not parse
  and when it parses to something that is not an array; otherwise the first 20, in the
  model's order, of the entries that are objects with a non-empty string \<open>name\<close>, each
  with that name and with its \<open>type\<close> when it is \<open>concept\<close>, \<open>entity\<close> or \<open>idea\<close>,
  else \<open>entity\<close>.
\<close>

theorem extractEntitiesWithTypes_spec:
  "extractEntitiesWithTypes api_key net parse text
     = extractEntitiesWithTypes api_key net parse (take 4000 text)
   \<and> (\<forall>b \<in> set (fst (extractEntitiesWithTypes api_key net parse text)).
         rq_messages b = [\<lparr> role = System, content = entity_prompt \<rparr>,
                          \<lparr> role = User, content = take 4000 text \<rparr>])
   \<and> snd (extractEntitiesWithTypes api_key net parse text)
       = (case snd (nvidiaChat api_key net (entity_request text)) of
            Inl e \<Rightarrow> []
          | Inr response \<Rightarrow>
              (case response of
                 JStr s \<Rightarrow>
                   (case parse (clean_response s) of
                      Some (JArr xs) \<Rightarrow> take 20 (map to_typed_entity (filter valid_entity xs))
                    | _ \<Rightarrow> [])
               | _ \<Rightarrow> []))
   \<and> length (snd (extractEntitiesWithTypes api_key net parse text)) \<le> 20
   \<and> (\<forall>te \<in> set (snd (extractEntitiesWithTypes api_key net parse text)). name te \<noteq> [])
   \<and> (\<forall>e. valid_entity e \<longleftrightarrow>
            (\<exists>kvs s. e = JObj kvs \<and> map_of kvs (lit ''name'') = Some (JStr s) \<and> s \<noteq> []))
   \<and> (\<forall>e. valid_entity e \<longrightarrow> js_member e (lit ''name'') = Some (JStr (name (to_typed_entity e))))
   \<and> (\<forall>e. etype (to_typed_entity e)
            = (if js_member e (lit ''type'') = Some (JStr (lit ''concept'')) then Concept
               else if js_member e (lit ''type'') = Some (JStr (lit ''idea'')) then Idea
               else Entity))"
proof -
  have a: "extractEntitiesWithTypes api_key net parse text
     = extractEntitiesWithTypes api_key net parse (take 4000 text)"
    by (simp add: extractEntitiesWithTypes_def entity_request_def)
  have b: "\<forall>b \<in> set (fst (extractEntitiesWithTypes api_key net parse text)).
         rq_messages b = [\<lparr> role = System, content = entity_prompt \<rparr>,
                          \<lparr> role = User, content = take 4000 text \<rparr>]"
  proof
    fix b assume "b \<in> set (fst (extractEntitiesWithTypes api_key net parse text))"
    then have "b \<in> set (fst (nvidiaChat api_key net (entity_request text)))"
      by (simp add: extractEntitiesWithTypes_def split: prod.splits)
    from nvidiaChat_messages[OF this] show "rq_messages b = [\<lparr> role = System, content = entity_prompt \<rparr>,
                          \<lparr> role = User, content = take 4000 text \<rparr>]"
      by (simp add: entity_request_def)
  qed
  have c: "snd (extractEntitiesWithTypes api_key net parse text)
       = (case snd (nvidiaChat api_key net (entity_request text)) of
            Inl e \<Rightarrow> []
          | Inr response \<Rightarrow>
              (case response of
                 JStr s \<Rightarrow>
                   (case parse (clean_response s) of
                      Some (JArr xs) \<Rightarrow> take 20 (map to_typed_entity (filter valid_entity xs))
                    | _ \<Rightarrow> [])
               | _ \<Rightarrow> []))"
    by (simp add: extractEntitiesWithTypes_def entities_of_response_def
        split: prod.splits sum.splits json.splits option.splits)
  have d: "length (snd (extractEntitiesWithTypes api_key net parse text)) \<le> 20"
    by (auto simp: extractEntitiesWithTypes_def split: prod.splits sum.splits
        dest: entities_of_response_length entities_of_response_length[OF sym])
  have e: "\<forall>te \<in> set (snd (extractEntitiesWithTypes api_key net parse text)). name te \<noteq> []"
    by (auto simp: extractEntitiesWithTypes_def split: prod.splits sum.splits
        dest: entities_of_response_names entities_of_response_names[OF sym])
  have f: "\<forall>e. etype (to_typed_entity e)
            = (if js_member e (lit ''type'') = Some (JStr (lit ''concept'')) then Concept
               else if js_member e (lit ''type'') = Some (JStr (lit ''idea'')) then Idea
               else Entity)"
    by (auto simp: to_typed_entity_def entity_type_of_def lit_def split: option.splits json.splits)
  from a b c d e f valid_entity_iff name_to_typed_entity show ?thesis by blast
qed

lemma clean_fenced: "clean_response fenced_entities = lit ''[{\"name\":\"React\",\"type\":\"idea\"},{\"name\":\"\"},7,{\"name\":\"Go\",\"type\":\"tool\"}]''"
  by (simp add: clean_response_def fenced_entities_def lit_def startsWith_def drop_newline_def trim_def is_space_def)

theorem extractEntitiesWithTypes_spec_witness:
  "extractEntitiesWithTypes (Some (lit ''k'')) (net_answers fenced_entities) parse_entities (lit ''React and Go'')
     = ([chat_body (entity_request (lit ''React and Go'')) False (MODELS ! 0)],
        [\<lparr> name = lit ''React'', etype = Idea \<rparr>, \<lparr> name = lit ''Go'', etype = Entity \<rparr>])
   \<and> rq_messages (chat_body (entity_request (lit ''React and Go'')) False (MODELS ! 0))
       = [\<lparr> role = System, content = entity_prompt \<rparr>,
          \<lparr> role = User, content = take 4000 (lit ''React and Go'') \<rparr>]"
proof -
  have r: "nvidiaChat (Some (lit ''k'')) (net_answers fenced_entities) (entity_request (lit ''React and Go''))
      = ([chat_body (entity_request (lit ''React and Go'')) False (MODELS ! 0)], Inr (JStr fenced_entities))"
    by (simp add: nvidiaChat_def key_missing_def modelsToTry_def MODELS_def entity_request_def
        net_answers_def ok_response_def completion_def attempt_def completion_content_def fenced_entities_def lit_def)
  have p: "parse_entities (clean_response fenced_entities) 
     = Some (JArr [JObj [(lit ''name'', JStr (lit ''React'')), (lit ''type'', JStr (lit ''idea''))],
                       JObj [(lit ''name'', JStr [])],
                       JNum 7,
                       JObj [(lit ''name'', JStr (lit ''Go'')), (lit ''type'', JStr (lit ''tool''))]])"
    by (simp add: clean_fenced parse_entities_def)
  note s = extractEntitiesWithTypes_spec [of "Some (lit ''k'')" "net_answers fenced_entities"
      parse_entities "lit ''React and Go''", THEN conjunct2, THEN conjunct2, THEN conjunct1]
  have v: "filter valid_entity
             [JObj [(lit ''name'', JStr (lit ''React'')), (lit ''type'', JStr (lit ''idea''))],
              JObj [(lit ''name'', JStr [])],
              JNum 7,
              JObj [(lit ''name'', JStr (lit ''Go'')), (lit ''type'', JStr (lit ''tool''))]]
           = [JObj [(lit ''name'', JStr (lit ''React'')), (lit ''type'', JStr (lit ''idea''))],
              JObj [(lit ''name'', JStr (lit ''Go'')), (lit ''type'', JStr (lit ''tool''))]]"
    by (simp add: valid_entity_def lit_def)
  have t: "map to_typed_entity
             [JObj [(lit ''name'', JStr (lit ''React'')), (lit ''type'', JStr (lit ''idea''))],
              JObj [(lit ''name'', JStr (lit ''Go'')), (lit ''type'', JStr (lit ''tool''))]]
           = [\<lparr> name = lit ''React'', etype = Idea \<rparr>, \<lparr> name = lit ''Go'', etype = Entity \<rparr>]"
    by (simp add: to_typed_entity_def entity_type_of_def lit_def)
  have e: "snd (extractEntitiesWithTypes (Some (lit ''k'')) (net_answers fenced_entities) parse_entities (lit ''React and Go''))
     = [\<lparr> name = lit ''React'', etype = Idea \<rparr>, \<lparr> name = lit ''Go'', etype = Entity \<rparr>]"
    by (simp only: s r snd_conv sum.case json.case p option.case v t take_Cons' take_Nil) simp
  have f: "fst (extractEntitiesWithTypes (Some (lit ''k'')) (net_answers fenced_entities) parse_entities (lit ''React and Go''))
     = [chat_body (entity_request (lit ''React and Go'')) False (MODELS ! 0)]"
    by (simp add: extractEntitiesWithTypes_def r)
  have m: "rq_messages (chat_body (entity_request (lit ''React and Go'')) False (MODELS ! 0))
       = [\<lparr> role = System, content = entity_prompt \<rparr>,
          \<lparr> role = User, content = take 4000 (lit ''React and Go'') \<rparr>]"
    by (simp add: chat_body_def entity_request_def)
  from e f m show ?thesis by (simp add: prod_eq_iff)
qed

subsection \<open>Key points\<close>

text \<open>
  What \<open>extractKeyPoints\<close> does keep of the contract: the truncation to 4000 code units,
  the cleanup, the cap at 10 entries and the empty list on every failure.
\<close>

lemma extractKeyPoints_shape:
  "extractKeyPoints api_key net parse text = extractKeyPoints api_key net parse (take 4000 text)
   \<and> snd (extractKeyPoints api_key net parse text)
       = (case snd (nvidiaChat api_key net (keypoints_request text)) of
            Inl e \<Rightarrow> []
          | Inr response \<Rightarrow>
              (case response of
                 JStr s \<Rightarrow>
                   (case parse (clean_response s) of
                      Some (JArr xs) \<Rightarrow> take 10 xs
                    | _ \<Rightarrow> [])
               | _ \<Rightarrow> []))
   \<and> length (snd (extractKeyPoints api_key net parse text)) \<le> 10"
proof -
  have a: "extractKeyPoints api_key net parse text = extractKeyPoints api_key net parse (take 4000 text)"
    by (simp add: extractKeyPoints_def keypoints_request_def)
  have c: "snd (extractKeyPoints api_key net parse text)
       = (case snd (nvidiaChat api_key net (keypoints_request text)) of
            Inl e \<Rightarrow> []
          | Inr response \<Rightarrow>
              (case response of
                 JStr s \<Rightarrow>
                   (case parse (clean_response s) of
                      Some (JArr xs) \<Rightarrow> take 10 xs
                    | _ \<Rightarrow> [])
               | _ \<Rightarrow> []))"
    by (simp add: extractKeyPoints_def keypoints_of_response_def
        split: prod.splits sum.splits json.splits option.splits)
  have d: "length (snd (extractKeyPoints api_key net parse text)) \<le> 10"
    unfolding c by (simp split: sum.splits json.splits option.splits)
  from a c d show ?thesis by blast
qed

text \<open>
  Claim C7 at the failing input: the model answers \<open>[1, {}]\<close>, a JSON array whose
  entries are a number and an object. \<open>extractKeyPoints\<close> returns both entries as they
  are: it checks \<open>Array.isArray\<close> and nothing about the entries, where
  \<open>extractEntitiesWithTypes\<close> filters them.
\<close>

theorem extractKeyPoints_unvalidated:
  assumes "parse (lit ''[1, {}]'') = Some (JArr [JNum 1, JObj []])"
  shows "snd (extractKeyPoints (Some (lit ''k'')) (net_answers (lit ''[1, {}]'')) parse text)
           = [JNum 1, JObj []]
       \<and> \<not> is_text (JNum 1) \<and> \<not> is_text (JObj [])"
proof -
  have r: "snd (nvidiaChat (Some (lit ''k'')) (net_answers (lit ''[1, {}]'')) (keypoints_request text))
      = Inr (JStr (lit ''[1, {}]''))"
    by (simp add: nvidiaChat_def key_missing_def modelsToTry_def MODELS_def keypoints_request_def
        net_answers_def ok_response_def completion_def attempt_def completion_content_def lit_def)
  have c: "clean_response (lit ''[1, {}]'') = lit ''[1, {}]''"
    by (simp add: clean_response_def lit_def startsWith_def drop_newline_def trim_def is_space_def)
  note s = extractKeyPoints_shape [THEN conjunct2, THEN conjunct1]
  from assms show ?thesis
    by (simp add: s r c is_text_def)
qed

theorem extractKeyPoints_unvalidated_witness:
  "parse_points (lit ''[1, {}]'') = Some (JArr [JNum 1, JObj []])
   \<and> snd (extractKeyPoints (Some (lit ''k'')) (net_answers (lit ''[1, {}]'')) parse_points (lit ''some text''))
           = [JNum 1, JObj []]"
  using extractKeyPoints_unvalidated [of parse_points "lit ''some text''"]
  by (simp add: parse_points_def)

section \<open>The embedding generator\<close>

text \<open>
  \<open>s.split(/\s+/)\<close>: the fields between the maximal runs of white space; a run at
  either end leaves an empty field there, and the empty string gives one empty field.
\<close>

function split_ws :: "jstring \<Rightarrow> jstring list" where
  "split_ws [] = [[]]"
| "split_ws (c # cs) =
     (if is_space c then [] # split_ws (dropWhile is_space cs)
      else (case split_ws cs of
              [] \<Rightarrow> [[c]]
            | f # fs \<Rightarrow> (c # f) # fs))"
  by pat_completeness auto
termination
proof (relation "measure length")
  show "wf (measure length)" by simp
next
  fix c :: nat and cs :: jstring
  have "length (dropWhile is_space cs) \<le> length cs" by (rule length_dropWhile_le)
  then show "(dropWhile is_space cs, c # cs) \<in> measure length" by simp
next
  fix c :: nat and cs :: jstring
  show "(cs, c # cs) \<in> measure length" by simp
qed

text \<open>
  \<open>(word.charCodeAt(i) * (i + 1) * 7) % dim\<close>. A code unit is below \<open>2 ^ 16\<close> and a
  string shorter than \<open>2 ^ 30\<close>, so the product is below \<open>2 ^ 53\<close> and the double
  arithmetic of the source is exact.
\<close>

definition bucket :: "nat \<Rightarrow> nat \<Rightarrow> nat" where
  "bucket c i = (c * (i + 1) * 7) mod 128"

text \<open>
  \<open>for (let i = 0; i < word.length; i++) embedding[idx] += 1\<close>, from position \<open>i\<close>
  on. The counts are whole numbers.
\<close>

fun add_word :: "nat \<Rightarrow> jstring \<Rightarrow> nat list \<Rightarrow> nat list" where
  "add_word i [] embedding = embedding"
| "add_word i (c # cs) embedding =
     add_word (Suc i) cs (embedding[bucket c i := embedding ! bucket c i + 1])"

definition bucket_counts :: "jstring list \<Rightarrow> nat list" where
  "bucket_counts words = fold (add_word 0) words (replicate 128 0)"

subsection \<open>Double arithmetic\<close>

text \<open>
  A JavaScript number is an IEEE 754 double, and \<open>*\<close>, \<open>+\<close>, \<open>/\<close> and \<open>Math.sqrt\<close>
  give the double nearest to the exact result, a tie going to the double whose last bit
  is even. \<open>round_half_even y\<close> is the integer nearest to \<open>y\<close> under that rule.
\<close>

definition round_half_even :: "real \<Rightarrow> int" where
  "round_half_even y =
     (let f = \<lfloor>y\<rfloor> in
      if y - of_int f < 1 / 2 then f
      else if 1 / 2 < y - of_int f then f + 1
      else if even f then f else f + 1)"

text \<open>
  The double nearest to the real \<open>x\<close>: \<open>x\<close> is scaled by the power of two that brings
  its magnitude into \<open>[2 ^ 52, 2 ^ 53)\<close>, rounded to an integer, and scaled back, which
  keeps 53 significant bits. The ends of the exponent range are left out: the generator
  takes squares, sums, a square root and quotients of counts of code units, which stay
  far from the overflow and underflow of doubles.
\<close>

definition round_double :: "real \<Rightarrow> real" where
  "round_double x =
     (if x = 0 then 0
      else (let e = \<lfloor>log 2 \<bar>x\<bar>\<rfloor> - 52
            in of_int (round_half_even (x / 2 powr of_int e)) * 2 powr of_int e))"

text \<open>The unit roundoff of doubles, \<open>2 ^ - 53\<close>.\<close>

definition unit_roundoff :: real where
  "unit_roundoff = 1 / 2 ^ 53"

subsection \<open>The generator\<close>

text \<open>
  \<open>toLowerCase\<close> is built in and follows the Unicode case mapping: the model takes it
  as the parameter \<open>lower\<close>. The counts are whole numbers below \<open>2 ^ 53\<close>, which
  \<open>embedding[idx] += 1\<close> computes exactly; they are kept as naturals and read as doubles
  by \<open>real\<close>. Every operation of the normalisation rounds: \<open>val * val\<close>, \<open>sum + \<dots>\<close> in
  the \<open>reduce\<close> (from the left, starting at 0), \<open>Math.sqrt\<close> and \<open>v / norm\<close>.
\<close>

definition generateEmbeddingSimple :: "(jstring \<Rightarrow> jstring) \<Rightarrow> jstring \<Rightarrow> real list" where
  "generateEmbeddingSimple lower text =
     (let words = split_ws (lower text);
          embedding = bucket_counts words;
          norm = round_double (sqrt (foldl (\<lambda>sum val. round_double (sum + round_double (val * val)))
                                       0 (map real embedding)))
      in if norm > 0 then map (\<lambda>v. round_double (real v / norm)) embedding else map real embedding)"

text \<open>
  The reference definition, in the words of the specification: bucket \<open>b\<close> counts the
  pairs of a word and a position in it that hash to \<open>b\<close>; the vector of the 128 counts
  is divided by its Euclidean norm, and returned as it is when the norm is zero. The
  norm and the quotients are those of double arithmetic.
\<close>

definition bucket_sum :: "jstring list \<Rightarrow> nat \<Rightarrow> nat" where
  "bucket_sum words b =
     (\<Sum>w\<leftarrow>words. length (filter (\<lambda>i. (w ! i * (i + 1) * 7) mod 128 = b) [0..<length w]))"

definition double_norm :: "real list \<Rightarrow> real" where
  "double_norm v =
     round_double (sqrt (foldl (\<lambda>sum val. round_double (sum + round_double (val * val))) 0 v))"

definition embed_reference :: "(jstring \<Rightarrow> jstring) \<Rightarrow> jstring \<Rightarrow> real list" where
  "embed_reference lower text =
     (let words = split_ws (lower text);
          v = map (\<lambda>b. real (bucket_sum words b)) [0..<128]
      in if double_norm v = 0 then v else map (\<lambda>x. round_double (x / double_norm v)) v)"

text \<open>The Euclidean norm of a vector of doubles, as a real number.\<close>

definition euclidean_norm :: "real list \<Rightarrow> real" where
  "euclidean_norm v = sqrt (\<Sum>x\<leftarrow>v. x\<^sup>2)"

text \<open>Lower-casing of the ASCII letters, for evaluating the generator.\<close>

definition ascii_lower :: "jstring \<Rightarrow> jstring" where
  "ascii_lower s = map (\<lambda>c. if 65 \<le> c \<and> c \<le> 90 then c + 32 else c) s"

subsection \<open>Rounding to the nearest double\<close>

lemma round_half_even_error: "\<bar>of_int (round_half_even y) - y\<bar> \<le> 1 / 2"
  unfolding round_half_even_def Let_def by (auto; linarith)

lemma round_half_even_eqI: "\<bar>y - of_int m\<bar> < 1 / 2 \<Longrightarrow> round_half_even y = m"
proof -
  assume a: "\<bar>y - of_int m\<bar> < 1 / 2"
  have e: "\<bar>of_int (round_half_even y) - y\<bar> \<le> 1 / 2" by (rule round_half_even_error)
  from a e have "\<bar>of_int (round_half_even y) - (of_int m :: real)\<bar> < 1" by linarith
  then have "\<bar>(of_int (round_half_even y - m) :: real)\<bar> < 1" by simp
  then have "\<bar>round_half_even y - m\<bar> < 1" by linarith
  then show ?thesis by linarith
qed

lemma round_double_zero: "round_double 0 = 0"
  by (simp add: round_double_def)

lemma floor_log_bounds:
  assumes "x \<noteq> 0"
  shows "2 powr of_int \<lfloor>log 2 \<bar>x\<bar>\<rfloor> \<le> \<bar>x\<bar>"
proof -
  from assms have p: "0 < \<bar>x\<bar>" by simp
  have "2 powr of_int \<lfloor>log 2 \<bar>x\<bar>\<rfloor> \<le> 2 powr log 2 \<bar>x\<bar>"
    by (rule powr_mono) simp_all
  also have "\<dots> = \<bar>x\<bar>" using p by simp
  finally show ?thesis .
qed

lemma round_double_error: "\<bar>round_double x - x\<bar> \<le> unit_roundoff * \<bar>x\<bar>"
proof (cases "x = 0")
  case True
  then show ?thesis by (simp add: round_double_def)
next
  case False
  define k where "k = \<lfloor>log 2 \<bar>x\<bar>\<rfloor>"
  define s :: real where "s = 2 powr of_int (k - 52)"
  have s: "0 < s" by (simp add: s_def)
  have sk: "2 powr of_int k = s * 2 ^ 52"
    by (simp add: s_def powr_diff)
  have lo: "s * 2 ^ 52 \<le> \<bar>x\<bar>"
    using floor_log_bounds[OF False] unfolding k_def[symmetric] sk .
  have r: "round_double x = of_int (round_half_even (x / s)) * s"
    using False by (simp add: round_double_def Let_def k_def s_def)
  have "\<bar>round_double x - x\<bar> = \<bar>of_int (round_half_even (x / s)) - x / s\<bar> * s"
  proof -
    have "round_double x - x = (of_int (round_half_even (x / s)) - x / s) * s"
      using s by (simp add: r algebra_simps)
    then show ?thesis using s by (simp add: abs_mult)
  qed
  also have "\<dots> \<le> (1 / 2) * s"
    using round_half_even_error[of "x / s"] s by (intro mult_right_mono) auto
  also have "\<dots> = unit_roundoff * (s * 2 ^ 52)"
    by (simp add: unit_roundoff_def)
  also have "\<dots> \<le> unit_roundoff * \<bar>x\<bar>"
    using lo by (intro mult_left_mono) (auto simp: unit_roundoff_def)
  finally show ?thesis .
qed

lemma round_double_bounds:
  assumes "0 \<le> x"
  shows "(1 - unit_roundoff) * x \<le> round_double x" and "round_double x \<le> (1 + unit_roundoff) * x"
  using round_double_error[of x] assms by (auto simp: algebra_simps abs_le_iff)

lemma round_double_eqI:
  assumes "2 powr of_int k \<le> \<bar>x\<bar>" and "\<bar>x\<bar> < 2 powr of_int (k + 1)"
    and "\<bar>x / 2 powr of_int (k - 52) - of_int m\<bar> < 1 / 2"
  shows "round_double x = of_int m * 2 powr of_int (k - 52)"
proof -
  have "0 < (2::real) powr of_int k" by simp
  with assms(1) have p: "0 < \<bar>x\<bar>" by linarith
  then have nz: "x \<noteq> 0" by auto
  have "\<lfloor>log 2 \<bar>x\<bar>\<rfloor> = k"
  proof (rule floor_unique)
    show "of_int k \<le> log 2 \<bar>x\<bar>" using assms(1) p by (simp add: le_log_iff)
    show "log 2 \<bar>x\<bar> < of_int k + 1" using assms(2) p by (simp add: log_less_iff add.commute)
  qed
  with nz round_half_even_eqI[OF assms(3)] show ?thesis
    by (simp add: round_double_def Let_def)
qed

lemma round_double_of_nat:
  assumes "n \<le> 2 ^ 53"
  shows "round_double (real n) = real n"
proof (cases "n = 0")
  case True
  then show ?thesis by (simp add: round_double_def)
next
  case False
  define k where "k = \<lfloor>log 2 \<bar>real n\<bar>\<rfloor>"
  from False have p: "0 < real n" by simp
  have lo: "2 powr of_int k \<le> real n"
    unfolding k_def using floor_log_bounds[of "real n"] False by simp
  have n53: "real n \<le> 2 ^ 53"
    using assms by (metis of_nat_le_iff of_nat_numeral of_nat_power)
  have k53: "k \<le> 53"
  proof (rule ccontr)
    assume "\<not> k \<le> 53"
    then have "(54::real) \<le> of_int k" by simp
    then have "(2::real) powr 54 \<le> 2 powr of_int k" by (intro powr_mono) auto
    with lo n53 show False by simp
  qed
  show ?thesis
  proof (cases "k = 53")
    case True
    from lo True have "2 ^ 53 \<le> real n" by simp
    with n53 have n: "real n = 2 ^ 53" by simp
    have "round_double (real n) = of_int (2 ^ 52) * 2 powr of_int (53 - 52)"
      by (rule round_double_eqI) (simp_all add: n)
    then show ?thesis by (simp add: n)
  next
    case f: False
    with k53 have k52: "k \<le> 52" by simp
    define j where "j = nat (52 - k)"
    have e: "(2::real) powr of_int (k - 52) = 1 / 2 ^ j"
    proof -
      have "real_of_int (k - 52) = - real j" using k52 by (simp add: j_def)
      then have "(2::real) powr of_int (k - 52) = 2 powr (- real j)" by (simp only:)
      also have "\<dots> = 1 / 2 ^ j" by (simp add: powr_minus powr_realpow field_simps)
      finally show ?thesis .
    qed
    have y: "real n / 2 powr of_int (k - 52) = of_int (int n * 2 ^ j)"
      by (simp only: e) simp
    have "round_half_even (real n / 2 powr of_int (k - 52)) = int n * 2 ^ j"
      unfolding y by (rule round_half_even_eqI) simp
    moreover have "round_double (real n)
        = of_int (round_half_even (real n / 2 powr of_int (k - 52))) * 2 powr of_int (k - 52)"
      using False unfolding round_double_def Let_def k_def by simp
    ultimately have "round_double (real n) = of_int (int n * 2 ^ j) * (1 / 2 ^ j)"
      by (simp only: e)
    then show ?thesis by simp
  qed
qed

subsection \<open>The generator refines the reference definition\<close>

lemma length_add_word: "length (add_word i cs embedding) = length embedding"
  by (induction cs arbitrary: i embedding) auto

lemma bucket_less: "bucket c i < 128"
  by (simp add: bucket_def)

lemma filter_upt_Suc_shift:
  "length (filter P [0..<Suc n]) = (if P 0 then 1 else 0) + length (filter (\<lambda>j. P (Suc j)) [0..<n])"
proof -
  have "[0..<Suc n] = 0 # map Suc [0..<n]"
    by (simp add: upt_conv_Cons map_Suc_upt del: upt_Suc)
  then show ?thesis by (simp add: filter_map comp_def del: upt_Suc)
qed

lemma add_word_nth:
  "length embedding = 128 \<Longrightarrow> b < 128 \<Longrightarrow>
   add_word i cs embedding ! b
     = embedding ! b + length (filter (\<lambda>j. bucket (cs ! j) (i + j) = b) [0..<length cs])"
proof (induction cs arbitrary: i embedding)
  case Nil
  then show ?case by simp
next
  case (Cons c cs)
  let ?e = "embedding[bucket c i := embedding ! bucket c i + 1]"
  have len: "length ?e = 128" using Cons.prems by simp
  have "add_word i (c # cs) embedding ! b = add_word (Suc i) cs ?e ! b" by simp
  also have "\<dots> = ?e ! b + length (filter (\<lambda>j. bucket (cs ! j) (Suc i + j) = b) [0..<length cs])"
    using Cons.IH[OF len Cons.prems(2)] .
  also have "?e ! b = embedding ! b + (if bucket c i = b then 1 else 0)"
    using Cons.prems by (simp add: nth_list_update)
  finally show ?case
    by (simp add: filter_upt_Suc_shift[of _ "length cs"] del: upt_Suc)
qed

lemma fold_add_word_length:
  "length (fold (add_word 0) words embedding) = length embedding"
  by (induction words arbitrary: embedding) (auto simp: length_add_word)

lemma fold_add_word_nth:
  "length embedding = 128 \<Longrightarrow> b < 128 \<Longrightarrow>
   fold (add_word 0) words embedding ! b = embedding ! b + bucket_sum words b"
proof (induction words arbitrary: embedding)
  case Nil
  then show ?case by (simp add: bucket_sum_def)
next
  case (Cons w ws)
  have len: "length (add_word 0 w embedding) = 128"
    using Cons.prems by (simp add: length_add_word)
  have "fold (add_word 0) (w # ws) embedding ! b
          = add_word 0 w embedding ! b + bucket_sum ws b"
    using Cons.IH[OF len Cons.prems(2)] by simp
  also have "add_word 0 w embedding ! b
          = embedding ! b + length (filter (\<lambda>j. bucket (w ! j) j = b) [0..<length w])"
    using add_word_nth[OF Cons.prems, of 0 w] by simp
  finally show ?case by (simp add: bucket_sum_def bucket_def)
qed

lemma length_bucket_counts: "length (bucket_counts words) = 128"
  by (simp add: bucket_counts_def fold_add_word_length)

lemma bucket_counts_eq: "bucket_counts words = map (bucket_sum words) [0..<128]"
proof (rule nth_equalityI)
  show "length (bucket_counts words) = length (map (bucket_sum words) [0..<128])"
    by (simp add: length_bucket_counts)
next
  fix b assume "b < length (bucket_counts words)"
  then have b: "b < 128" by (simp add: length_bucket_counts)
  then have "bucket_counts words ! b = bucket_sum words b"
    by (simp add: bucket_counts_def fold_add_word_nth)
  with b show "bucket_counts words ! b = map (bucket_sum words) [0..<128] ! b"
    by (simp del: upt_Suc)
qed

subsection \<open>The rounding error of the normalisation\<close>

text \<open>
  Each rounding of a non-negative value changes it by a factor between
  \<open>1 - unit_roundoff\<close> and \<open>1 + unit_roundoff\<close>. The sum of the squares of \<open>n\<close> values
  goes through \<open>2 * n\<close> roundings, its square root through one more, each component of
  the result through one.
\<close>

lemma unit_roundoff_pos: "0 < unit_roundoff"
  by (simp add: unit_roundoff_def)

lemma unit_roundoff_less: "unit_roundoff < 1"
  by (simp add: unit_roundoff_def)

lemma square_step_bounds:
  assumes A: "0 \<le> A" and q: "0 \<le> q"
    and lo: "(1 - unit_roundoff) ^ m * A \<le> acc"
    and hi: "acc \<le> (1 + unit_roundoff) ^ m * A"
  shows "(1 - unit_roundoff) ^ (m + 2) * (A + q) \<le> round_double (acc + round_double q)"
    and "round_double (acc + round_double q) \<le> (1 + unit_roundoff) ^ (m + 2) * (A + q)"
proof -
  define a where "a = 1 - unit_roundoff"
  define b where "b = 1 + unit_roundoff"
  have a0: "0 \<le> a" and a1: "a \<le> 1" and b1: "1 \<le> b"
    using unit_roundoff_pos unit_roundoff_less by (simp_all add: a_def b_def)
  have am0: "0 \<le> a ^ m" using a0 by simp
  have am1: "a ^ m \<le> 1" using a0 a1 by (rule power_le_one)
  have bm1: "1 \<le> b ^ m" using b1 by (rule one_le_power)
  have b0: "0 \<le> b" using b1 by simp
  note lo' = lo[folded a_def] and hi' = hi[folded b_def]
  have p_lo: "a * q \<le> round_double q" and p_hi: "round_double q \<le> b * q"
    using round_double_bounds[OF q] by (simp_all add: a_def b_def)
  have acc0: "0 \<le> acc"
  proof -
    have "0 \<le> a ^ m * A" using am0 A by simp
    with lo' show ?thesis by linarith
  qed
  have aq0: "0 \<le> a * q" using a0 q by simp
  have s0: "0 \<le> acc + round_double q" using acc0 aq0 p_lo by linarith
  have s_lo: "a ^ (m + 1) * (A + q) \<le> acc + round_double q"
  proof -
    have "a * (a ^ m * A) \<le> a ^ m * A"
      using a0 a1 am0 A by (intro mult_left_le_one_le) simp_all
    moreover have "a ^ m * (a * q) \<le> a * q"
      using am1 am0 aq0 by (intro mult_left_le_one_le) simp_all
    moreover have "a ^ (m + 1) * (A + q) = a * (a ^ m * A) + a ^ m * (a * q)"
      by (simp add: algebra_simps)
    ultimately show ?thesis using lo' p_lo by linarith
  qed
  have s_hi: "acc + round_double q \<le> b ^ (m + 1) * (A + q)"
  proof -
    have "0 \<le> b ^ m * A" using b0 A by simp
    then have "1 * (b ^ m * A) \<le> b * (b ^ m * A)"
      using b1 by (intro mult_right_mono) simp_all
    moreover have "0 \<le> b * q" using b0 q by simp
    then have "1 * (b * q) \<le> b ^ m * (b * q)"
      using bm1 by (intro mult_right_mono) simp_all
    moreover have "b ^ (m + 1) * (A + q) = b * (b ^ m * A) + b ^ m * (b * q)"
      by (simp add: algebra_simps)
    ultimately show ?thesis using hi' p_hi by linarith
  qed
  have r_lo: "a * (acc + round_double q) \<le> round_double (acc + round_double q)"
    and r_hi: "round_double (acc + round_double q) \<le> b * (acc + round_double q)"
    using round_double_bounds[OF s0] by (simp_all add: a_def b_def)
  have "a * (a ^ (m + 1) * (A + q)) \<le> a * (acc + round_double q)"
    using s_lo a0 by (rule mult_left_mono)
  with r_lo have "a ^ (m + 2) * (A + q) \<le> round_double (acc + round_double q)"
    by (simp add: algebra_simps)
  then show "(1 - unit_roundoff) ^ (m + 2) * (A + q) \<le> round_double (acc + round_double q)"
    by (simp only: a_def)
  have "b * (acc + round_double q) \<le> b * (b ^ (m + 1) * (A + q))"
    using s_hi b0 by (rule mult_left_mono)
  with r_hi have "round_double (acc + round_double q) \<le> b ^ (m + 2) * (A + q)"
    by (simp add: algebra_simps)
  then show "round_double (acc + round_double q) \<le> (1 + unit_roundoff) ^ (m + 2) * (A + q)"
    by (simp only: b_def)
qed

lemma foldl_squares_bounds:
  assumes "0 \<le> A"
    and "(1 - unit_roundoff) ^ m * A \<le> acc"
    and "acc \<le> (1 + unit_roundoff) ^ m * A"
  shows "(1 - unit_roundoff) ^ (m + 2 * length v) * (A + (\<Sum>x\<leftarrow>v. x\<^sup>2))
           \<le> foldl (\<lambda>sum val. round_double (sum + round_double (val * val))) acc v
       \<and> foldl (\<lambda>sum val. round_double (sum + round_double (val * val))) acc v
           \<le> (1 + unit_roundoff) ^ (m + 2 * length v) * (A + (\<Sum>x\<leftarrow>v. x\<^sup>2))"
  using assms
proof (induction v arbitrary: A m acc)
  case Nil
  then show ?case by simp
next
  case (Cons x v)
  have q: "0 \<le> x * x" by simp
  have A': "0 \<le> A + x * x" using Cons.prems(1) by simp
  note step = square_step_bounds[OF Cons.prems(1) q Cons.prems(2) Cons.prems(3)]
  have e1: "m + 2 + 2 * length v = m + 2 * length (x # v)" by simp
  have e2: "A + x * x + (\<Sum>y\<leftarrow>v. y\<^sup>2) = A + (\<Sum>y\<leftarrow>x # v. y\<^sup>2)"
    by (simp add: power2_eq_square)
  from Cons.IH[OF A' step] show ?case
    unfolding e1 e2 by simp
qed

lemma sum_squares_nonneg: "0 \<le> (\<Sum>x\<leftarrow>v. x\<^sup>2)" for v :: "real list"
  by (rule sum_list_nonneg) auto

lemma sqrt_power_mult:
  assumes "0 \<le> c"
  shows "sqrt (c ^ (2 * n) * S) = c ^ n * sqrt S"
proof -
  have "c ^ (2 * n) = (c ^ n)\<^sup>2" by (simp add: power_mult power2_eq_square power_mult_distrib mult.commute)
  then have "sqrt (c ^ (2 * n)) = \<bar>c ^ n\<bar>" by (simp only: real_sqrt_abs)
  with assms show ?thesis by (simp add: real_sqrt_mult)
qed

lemma double_norm_bounds:
  "(1 - unit_roundoff) ^ (length v + 1) * sqrt (\<Sum>x\<leftarrow>v. x\<^sup>2) \<le> double_norm v
   \<and> double_norm v \<le> (1 + unit_roundoff) ^ (length v + 1) * sqrt (\<Sum>x\<leftarrow>v. x\<^sup>2)"
proof -
  define a where "a = 1 - unit_roundoff"
  define b where "b = 1 + unit_roundoff"
  define F where "F = foldl (\<lambda>sum val. round_double (sum + round_double (val * val))) 0 v"
  define S where "S = (\<Sum>x\<leftarrow>v. x\<^sup>2)"
  have a0: "0 \<le> a" and b0: "0 \<le> b"
    using unit_roundoff_pos unit_roundoff_less by (simp_all add: a_def b_def)
  have S0: "0 \<le> S" unfolding S_def by (rule sum_squares_nonneg)
  have "a ^ (0 + 2 * length v) * (0 + S) \<le> F \<and> F \<le> b ^ (0 + 2 * length v) * (0 + S)"
    unfolding a_def b_def F_def S_def by (rule foldl_squares_bounds) simp_all
  then have F_lo: "a ^ (2 * length v) * S \<le> F" and F_hi: "F \<le> b ^ (2 * length v) * S"
    by simp_all
  have q_lo: "a ^ length v * sqrt S \<le> sqrt F"
    using F_lo sqrt_power_mult[OF a0, of "length v" S] real_sqrt_le_mono by fastforce
  have q_hi: "sqrt F \<le> b ^ length v * sqrt S"
    using F_hi sqrt_power_mult[OF b0, of "length v" S] real_sqrt_le_mono by fastforce
  have F0: "0 \<le> sqrt F"
  proof -
    have "0 \<le> a ^ length v * sqrt S" using a0 S0 by simp
    with q_lo show ?thesis by linarith
  qed
  have r_lo: "a * sqrt F \<le> round_double (sqrt F)" and r_hi: "round_double (sqrt F) \<le> b * sqrt F"
    using round_double_bounds[OF F0] by (simp_all add: a_def b_def)
  have "a * (a ^ length v * sqrt S) \<le> a * sqrt F" using q_lo a0 by (rule mult_left_mono)
  with r_lo have lo: "a ^ (length v + 1) * sqrt S \<le> round_double (sqrt F)"
    by (simp add: algebra_simps)
  have "b * sqrt F \<le> b * (b ^ length v * sqrt S)" using q_hi b0 by (rule mult_left_mono)
  with r_hi have hi: "round_double (sqrt F) \<le> b ^ (length v + 1) * sqrt S"
    by (simp add: algebra_simps)
  from lo hi show ?thesis
    unfolding double_norm_def F_def[symmetric] a_def b_def S_def by blast
qed

lemma double_norm_nonneg: "0 \<le> double_norm v"
proof -
  have "0 \<le> (1 - unit_roundoff) ^ (length v + 1) * sqrt (\<Sum>x\<leftarrow>v. x\<^sup>2)"
    using unit_roundoff_less sum_squares_nonneg[of v] by simp
  with double_norm_bounds[of v] show ?thesis by linarith
qed

lemma sum_list_const_mult_squares:
  "(\<Sum>x\<leftarrow>v. (c * x)\<^sup>2) = c\<^sup>2 * (\<Sum>x\<leftarrow>v. x\<^sup>2)" for c :: real
  by (induction v) (simp_all add: power_mult_distrib algebra_simps)

lemma normalised_bounds:
  assumes n: "0 < n" and v: "\<And>x. x \<in> set v \<Longrightarrow> 0 \<le> x"
  shows "(1 - unit_roundoff) * (sqrt (\<Sum>x\<leftarrow>v. x\<^sup>2) / n)
           \<le> euclidean_norm (map (\<lambda>x. round_double (x / n)) v)
       \<and> euclidean_norm (map (\<lambda>x. round_double (x / n)) v)
           \<le> (1 + unit_roundoff) * (sqrt (\<Sum>x\<leftarrow>v. x\<^sup>2) / n)"
proof -
  define a where "a = 1 - unit_roundoff"
  define b where "b = 1 + unit_roundoff"
  define S where "S = (\<Sum>x\<leftarrow>v. x\<^sup>2)"
  define W where "W = (\<Sum>x\<leftarrow>v. (round_double (x / n))\<^sup>2)"
  have a0: "0 \<le> a" and b0: "0 \<le> b"
    using unit_roundoff_pos unit_roundoff_less by (simp_all add: a_def b_def)
  have S0: "0 \<le> S" unfolding S_def by (rule sum_squares_nonneg)
  have comp: "a * (x / n) \<le> round_double (x / n) \<and> round_double (x / n) \<le> b * (x / n)
              \<and> 0 \<le> a * (x / n)" if "x \<in> set v" for x
  proof -
    from v[OF that] n have xn: "0 \<le> x / n" by simp
    with a0 have "0 \<le> a * (x / n)" by (rule mult_nonneg_nonneg)
    with round_double_bounds[OF xn] show ?thesis unfolding a_def b_def by blast
  qed
  have "(\<Sum>x\<leftarrow>v. ((a / n) * x)\<^sup>2) \<le> W"
    unfolding W_def
  proof (rule sum_list_mono)
    fix x assume "x \<in> set v"
    from comp[OF this] have "(a * (x / n))\<^sup>2 \<le> (round_double (x / n))\<^sup>2"
      by (intro power_mono) simp_all
    then show "((a / n) * x)\<^sup>2 \<le> (round_double (x / n))\<^sup>2" by simp
  qed
  then have W_lo: "(a / n)\<^sup>2 * S \<le> W"
    by (simp only: sum_list_const_mult_squares S_def)
  have "W \<le> (\<Sum>x\<leftarrow>v. ((b / n) * x)\<^sup>2)"
    unfolding W_def
  proof (rule sum_list_mono)
    fix x assume x: "x \<in> set v"
    from comp[OF x] have "0 \<le> round_double (x / n)" by linarith
    with comp[OF x] have "(round_double (x / n))\<^sup>2 \<le> (b * (x / n))\<^sup>2"
      by (intro power_mono) simp_all
    then show "(round_double (x / n))\<^sup>2 \<le> ((b / n) * x)\<^sup>2" by simp
  qed
  then have W_hi: "W \<le> (b / n)\<^sup>2 * S"
    by (simp only: sum_list_const_mult_squares S_def)
  have sa: "sqrt ((a / n)\<^sup>2 * S) = a * (sqrt S / n)"
    using a0 n by (simp add: real_sqrt_mult)
  have sb: "sqrt ((b / n)\<^sup>2 * S) = b * (sqrt S / n)"
    using b0 n by (simp add: real_sqrt_mult)
  have lo: "a * (sqrt S / n) \<le> sqrt W"
    using real_sqrt_le_mono[OF W_lo] unfolding sa .
  have hi: "sqrt W \<le> b * (sqrt S / n)"
    using real_sqrt_le_mono[OF W_hi] unfolding sb .
  have e: "euclidean_norm (map (\<lambda>x. round_double (x / n)) v) = sqrt W"
    by (simp add: euclidean_norm_def W_def comp_def)
  from lo hi show ?thesis
    unfolding e a_def b_def S_def by blast
qed

lemma roundoff_upper: "(1 + unit_roundoff) / (1 - unit_roundoff) ^ 129 \<le> 1 + 1 / 10 ^ 9"
proof -
  have "1 + real 129 * (- unit_roundoff) \<le> (1 + (- unit_roundoff)) ^ 129"
    by (rule Bernoulli_inequality) (simp add: unit_roundoff_def)
  then have le: "1 - 129 * unit_roundoff \<le> (1 - unit_roundoff) ^ 129" by simp
  have pos: "0 < 1 - 129 * unit_roundoff" by (simp add: unit_roundoff_def)
  have "(1 + unit_roundoff) / (1 - unit_roundoff) ^ 129
          \<le> (1 + unit_roundoff) / (1 - 129 * unit_roundoff)"
    using le pos unit_roundoff_pos by (intro divide_left_mono) (simp_all add: mult_pos_pos less_le_trans[OF pos le])
  also have "\<dots> \<le> 1 + 1 / 10 ^ 9"
    by (simp add: unit_roundoff_def field_simps)
  finally show ?thesis .
qed

lemma roundoff_lower: "1 - 1 / 10 ^ 9 \<le> (1 - unit_roundoff) / (1 + unit_roundoff) ^ 129"
proof -
  define a where "a = 1 - unit_roundoff"
  define b where "b = 1 + unit_roundoff"
  have a0: "0 \<le> a" and b0: "0 < b"
    using unit_roundoff_pos unit_roundoff_less by (simp_all add: a_def b_def)
  have "a * b \<le> 1" by (simp add: a_def b_def algebra_simps)
  then have "(a * b) ^ 129 \<le> 1" using a0 b0 by (intro power_le_one) simp_all
  then have "a ^ 129 * b ^ 129 \<le> 1" by (simp only: power_mult_distrib)
  then have ab: "a ^ 129 \<le> 1 / b ^ 129" using b0 by (simp add: field_simps)
  have "1 + real 130 * (- unit_roundoff) \<le> (1 + (- unit_roundoff)) ^ 130"
    by (rule Bernoulli_inequality) (simp add: unit_roundoff_def)
  then have "1 - 130 * unit_roundoff \<le> a ^ 130" by (simp add: a_def)
  moreover have "1 - 1 / 10 ^ 9 \<le> 1 - 130 * unit_roundoff" by (simp add: unit_roundoff_def)
  moreover have "a ^ 130 = a * a ^ 129"
  proof -
    have "(130::nat) = Suc 129" by simp
    then show ?thesis by (simp only: power_Suc)
  qed
  moreover have "a * a ^ 129 \<le> a * (1 / b ^ 129)" using ab a0 by (rule mult_left_mono)
  ultimately have "1 - 1 / 10 ^ 9 \<le> a * (1 / b ^ 129)" by linarith
  then show ?thesis by (simp add: a_def b_def)
qed

lemma sum_squares_zero_iff: "(\<Sum>x\<leftarrow>v. x\<^sup>2) = 0 \<longleftrightarrow> (\<forall>x\<in>set v. x = 0)" for v :: "real list"
proof (induction v)
  case Nil
  then show ?case by simp
next
  case (Cons a v)
  have "0 \<le> (\<Sum>x\<leftarrow>v. x\<^sup>2)" by (rule sum_list_nonneg) auto
  moreover have "0 \<le> a\<^sup>2" by simp
  ultimately have "a\<^sup>2 + (\<Sum>x\<leftarrow>v. x\<^sup>2) = 0 \<longleftrightarrow> a\<^sup>2 = 0 \<and> (\<Sum>x\<leftarrow>v. x\<^sup>2) = 0"
    using add_nonneg_eq_0_iff[of "a\<^sup>2" "\<Sum>x\<leftarrow>v. x\<^sup>2"] by simp
  with Cons show ?case by simp
qed

lemma double_norm_zero_iff: "double_norm v = 0 \<longleftrightarrow> (\<forall>x\<in>set v. x = 0)"
proof -
  define S where "S = (\<Sum>x\<leftarrow>v. x\<^sup>2)"
  have S0: "0 \<le> S" unfolding S_def by (rule sum_squares_nonneg)
  note b = double_norm_bounds[of v, folded S_def]
  have a: "0 < (1 - unit_roundoff) ^ (length v + 1)"
    using unit_roundoff_less by simp
  have "double_norm v = 0 \<longleftrightarrow> S = 0"
  proof
    assume z: "double_norm v = 0"
    with b have "(1 - unit_roundoff) ^ (length v + 1) * sqrt S \<le> 0" by simp
    have "sqrt S \<le> 0"
    proof (rule ccontr)
      assume "\<not> sqrt S \<le> 0"
      then have "0 < sqrt S" by simp
      with a have "0 < (1 - unit_roundoff) ^ (length v + 1) * sqrt S" by (rule mult_pos_pos)
      with \<open>(1 - unit_roundoff) ^ (length v + 1) * sqrt S \<le> 0\<close> show False by linarith
    qed
    with S0 show "S = 0" by simp
  next
    assume "S = 0"
    with b have "0 \<le> double_norm v" "double_norm v \<le> 0" by simp_all
    then show "double_norm v = 0" by simp
  qed
  then show ?thesis unfolding S_def by (simp only: sum_squares_zero_iff)
qed

lemma generateEmbeddingSimple_reference:
  "generateEmbeddingSimple lower text = embed_reference lower text"
proof -
  let ?words = "split_ws (lower text)"
  let ?v = "map (\<lambda>b. real (bucket_sum ?words b)) [0..<128]"
  have v: "map real (bucket_counts ?words) = ?v"
    by (simp add: bucket_counts_eq comp_def del: upt_Suc)
  have norm: "round_double (sqrt (foldl (\<lambda>sum val. round_double (sum + round_double (val * val)))
                                  0 (map real (bucket_counts ?words))))
                = double_norm ?v"
    unfolding v double_norm_def ..
  have m: "map (\<lambda>v. round_double (real v / double_norm ?v)) (bucket_counts ?words)
             = map (\<lambda>x. round_double (x / double_norm ?v)) ?v"
    unfolding v[symmetric] by (simp add: comp_def)
  have pos: "double_norm ?v > 0 \<longleftrightarrow> double_norm ?v \<noteq> 0"
    using double_norm_nonneg[of ?v] by linarith
  have "generateEmbeddingSimple lower text
          = (if double_norm ?v > 0
             then map (\<lambda>v. round_double (real v / double_norm ?v)) (bucket_counts ?words)
             else map real (bucket_counts ?words))"
    by (simp only: generateEmbeddingSimple_def Let_def norm)
  also have "\<dots> = (if double_norm ?v = 0 then ?v
                      else map (\<lambda>x. round_double (x / double_norm ?v)) ?v)"
    by (simp only: m v pos if_not_P if_P split: if_splits) simp
  finally show ?thesis
    by (simp only: embed_reference_def Let_def)
qed

lemma normalised_close:
  assumes len: "length v = 128" and v: "\<And>x. x \<in> set v \<Longrightarrow> 0 \<le> x"
    and nz: "double_norm v \<noteq> 0"
  shows "\<bar>euclidean_norm (map (\<lambda>x. round_double (x / double_norm v)) v) - 1\<bar> \<le> 1 / 10 ^ 9"
proof -
  define a where "a = 1 - unit_roundoff"
  define b where "b = 1 + unit_roundoff"
  define n where "n = double_norm v"
  define r where "r = sqrt (\<Sum>x\<leftarrow>v. x\<^sup>2)"
  define E where "E = euclidean_norm (map (\<lambda>x. round_double (x / n)) v)"
  have a0: "0 < a" and b0: "0 < b"
    using unit_roundoff_pos unit_roundoff_less by (simp_all add: a_def b_def)
  have n0: "0 < n" using nz double_norm_nonneg[of v] unfolding n_def by linarith
  have nb: "a ^ 129 * r \<le> n" "n \<le> b ^ 129 * r"
    using double_norm_bounds[of v] unfolding len a_def b_def n_def r_def by simp_all
  have a129: "0 < a ^ 129" and b129: "0 < b ^ 129" using a0 b0 by simp_all
  have q_hi: "r / n \<le> 1 / a ^ 129"
    using nb(1) a129 n0 by (simp add: field_simps)
  have q_lo: "1 / b ^ 129 \<le> r / n"
    using nb(2) b129 n0 by (simp add: field_simps)
  have Eb: "a * (r / n) \<le> E" "E \<le> b * (r / n)"
    using normalised_bounds[OF n0 v] unfolding a_def b_def r_def E_def by simp_all
  have "a * (1 / b ^ 129) \<le> a * (r / n)" using q_lo a0 by (intro mult_left_mono) simp_all
  with Eb(1) have "a / b ^ 129 \<le> E" by simp
  with roundoff_lower have lo: "1 - 1 / 10 ^ 9 \<le> E" unfolding a_def b_def by linarith
  have "b * (r / n) \<le> b * (1 / a ^ 129)" using q_hi b0 by (intro mult_left_mono) simp_all
  with Eb(2) have "E \<le> b / a ^ 129" by simp
  with roundoff_upper have hi: "E \<le> 1 + 1 / 10 ^ 9" unfolding a_def b_def by linarith
  from lo hi have "\<bar>E - 1\<bar> \<le> 1 / 10 ^ 9" by linarith
  then show ?thesis unfolding E_def n_def .
qed

text \<open>
  Claim C8, with the norm as double arithmetic gives it: for every input text,
  \<open>generateEmbeddingSimple\<close> equals the reference definition; its result has length 128;
  when every bucket sum is zero the result is the zero vector, and otherwise its
  Euclidean norm is within \<open>10 ^ - 9\<close> of 1; and on the empty text (which \<open>toLowerCase\<close>
  leaves empty) it is the zero vector. The function is total: there is no input on which
  it fails.
\<close>

theorem generateEmbeddingSimple_spec:
  "generateEmbeddingSimple lower text = embed_reference lower text
   \<and> length (generateEmbeddingSimple lower text) = 128
   \<and> (if \<forall>b<128. bucket_sum (split_ws (lower text)) b = 0
       then generateEmbeddingSimple lower text = replicate 128 0
       else \<bar>euclidean_norm (generateEmbeddingSimple lower text) - 1\<bar> \<le> 1 / 10 ^ 9)
   \<and> (lower [] = [] \<longrightarrow> generateEmbeddingSimple lower [] = replicate 128 0)"
proof -
  let ?words = "split_ws (lower text)"
  let ?v = "map (\<lambda>b. real (bucket_sum ?words b)) [0..<128]"
  have ref: "generateEmbeddingSimple lower text = embed_reference lower text"
    by (rule generateEmbeddingSimple_reference)
  have zero_iff: "double_norm ?v = 0 \<longleftrightarrow> (\<forall>b<128. bucket_sum ?words b = 0)"
    by (auto simp: double_norm_zero_iff simp del: upt_Suc)
  have len: "length (generateEmbeddingSimple lower text) = 128"
    unfolding ref by (simp add: embed_reference_def Let_def del: upt_Suc)
  have cases: "if \<forall>b<128. bucket_sum ?words b = 0
       then generateEmbeddingSimple lower text = replicate 128 0
       else \<bar>euclidean_norm (generateEmbeddingSimple lower text) - 1\<bar> \<le> 1 / 10 ^ 9"
  proof (cases "\<forall>b<128. bucket_sum ?words b = 0")
    case True
    then have "?v = map (\<lambda>b. 0) [0..<128]" by (simp del: upt_Suc)
    also have "\<dots> = replicate 128 0" by (simp add: map_replicate_const del: upt_Suc)
    finally have v0: "?v = replicate 128 0" .
    from True have "double_norm ?v = 0" using zero_iff by blast
    then have "embed_reference lower text = ?v"
      by (simp only: embed_reference_def Let_def refl if_True)
    also note v0
    finally have "generateEmbeddingSimple lower text = replicate 128 0"
      unfolding ref .
    with True show ?thesis by simp
  next
    case False
    then have nz: "double_norm ?v \<noteq> 0" using zero_iff by blast
    then have e: "embed_reference lower text = map (\<lambda>x. round_double (x / double_norm ?v)) ?v"
      by (simp only: embed_reference_def Let_def if_False refl)
    have l: "length ?v = 128" by (simp del: upt_Suc)
    have p: "0 \<le> x" if "x \<in> set ?v" for x using that by (auto simp del: upt_Suc)
    from normalised_close[OF l p nz] False show ?thesis unfolding ref e
      by (simp only: if_False)
  qed
  have empty: "lower [] = [] \<longrightarrow> generateEmbeddingSimple lower [] = replicate 128 0"
  proof
    assume l: "lower [] = []"
    have "bucket_counts [[]] = replicate 128 0"
      by (simp add: bucket_counts_def)
    then have c: "bucket_counts (split_ws (lower [])) = replicate 128 0"
      by (simp add: l)
    have "\<forall>x\<in>set (map real (bucket_counts (split_ws (lower [])))). x = 0"
      unfolding c by simp
    then have "double_norm (map real (bucket_counts (split_ws (lower [])))) = 0"
      by (simp only: double_norm_zero_iff)
    then have "generateEmbeddingSimple lower [] = map real (bucket_counts (split_ws (lower [])))"
      unfolding generateEmbeddingSimple_def Let_def double_norm_def by simp
    then show "generateEmbeddingSimple lower [] = replicate 128 0"
      unfolding c by simp
  qed
  from ref len cases empty show ?thesis by blast
qed

subsection \<open>The generator on \<open>'Ab a'\<close>\<close>

text \<open>
  The words are \<open>ab\<close> and \<open>a\<close>: bucket 39 counts 2 and bucket 92 counts 1. The sum of
  the squares is 5, exactly; \<open>Math.sqrt(5)\<close> is \<open>5035177455121576 / 2 ^ 51\<close>, and the two
  quotients round to \<open>8056283928194521 / 2 ^ 53\<close> (0.8944271909999159) and
  \<open>8056283928194521 / 2 ^ 54\<close> (0.4472135954999579).
\<close>

lemma foldl_squares_exact:
  "a + (\<Sum>c\<leftarrow>cs. c\<^sup>2) \<le> 2 ^ 53 \<Longrightarrow>
   foldl (\<lambda>sum val. round_double (sum + round_double (val * val))) (real a) (map real cs)
     = real (a + (\<Sum>c\<leftarrow>cs. c\<^sup>2))"
proof (induction cs arbitrary: a)
  case Nil
  then show ?case by simp
next
  case (Cons c cs)
  have le: "a + c * c + (\<Sum>c\<leftarrow>cs. c\<^sup>2) \<le> 2 ^ 53"
    using Cons.prems by (simp add: power2_eq_square)
  then have c: "c * c \<le> 2 ^ 53" and ac: "a + c * c \<le> 2 ^ 53" by linarith+
  have "round_double (real c * real c) = real (c * c)"
    using round_double_of_nat[OF c] by simp
  moreover have "round_double (real a + real (c * c)) = real (a + c * c)"
    using round_double_of_nat[OF ac] by simp
  ultimately have step: "round_double (real a + round_double (real c * real c)) = real (a + c * c)"
    by simp
  have "foldl (\<lambda>sum val. round_double (sum + round_double (val * val))) (real a) (map real (c # cs))
          = foldl (\<lambda>sum val. round_double (sum + round_double (val * val))) (real (a + c * c)) (map real cs)"
    by (simp only: list.map foldl_Cons step)
  also have "\<dots> = real (a + c * c + (\<Sum>c\<leftarrow>cs. c\<^sup>2))"
    by (rule Cons.IH[OF le])
  finally show ?case by (simp add: power2_eq_square)
qed

lemma sum_list_two_buckets:
  fixes g :: "nat \<Rightarrow> 'a::comm_monoid_add"
  assumes "\<And>b. b \<noteq> 39 \<Longrightarrow> b \<noteq> 92 \<Longrightarrow> g b = 0"
  shows "(\<Sum>b\<leftarrow>[0..<128]. g b) = g 39 + g 92"
proof -
  have "(\<Sum>b\<leftarrow>[0..<128]. g b) = sum g (set [0..<128])"
    by (rule interv_sum_list_conv_sum_set_nat)
  also have "\<dots> = sum g {39, 92}"
    by (rule sum.mono_neutral_right) (auto simp: assms)
  also have "\<dots> = g 39 + g 92" by simp
  finally show ?thesis .
qed

lemma split_fixture: "split_ws (ascii_lower (lit ''Ab a'')) = [[97, 98], [97]]"
  by (simp add: ascii_lower_def lit_def is_space_def)

lemma bucket_sum_fixture:
  "bucket_sum [[97, 98], [97]] b = (if b = 39 then 2 else if b = 92 then 1 else 0)"
  by (simp add: bucket_sum_def)

lemma sqrt_5_double: "round_double (sqrt 5) = 5035177455121576 / 2 ^ 51"
proof -
  have lo: "(5035177455121576 - 1 / 2) / 2 ^ 51 < sqrt 5"
    by (rule real_less_rsqrt) (simp add: power2_eq_square)
  have hi: "sqrt 5 < (5035177455121576 + 1 / 2) / 2 ^ 51"
    by (rule real_less_lsqrt) (simp_all add: power2_eq_square)
  have two: "2 \<le> sqrt 5" by (rule real_le_rsqrt) simp
  have four: "sqrt 5 < 4" by (rule real_less_lsqrt) simp_all
  have "round_double (sqrt 5) = of_int 5035177455121576 * 2 powr of_int (1 - 52)"
  proof (rule round_double_eqI)
    show "2 powr of_int 1 \<le> \<bar>sqrt 5\<bar>" using two by simp
    show "\<bar>sqrt 5\<bar> < 2 powr of_int (1 + 1)" using four by simp
    have p: "(2::real) powr of_int (1 - 52) = 1 / 2 ^ 51" by (simp add: powr_minus_divide)
    define y where "y = sqrt 5 * 2 ^ 51"
    have y: "sqrt 5 / 2 powr of_int (1 - 52) = y" unfolding p y_def by simp
    have "5035177455121576 - 1 / 2 < y" "y < 5035177455121576 + 1 / 2"
      using lo hi unfolding y_def by (simp_all add: field_simps)
    then have "y - 5035177455121576 < 1 / 2 \<and> - (y - 5035177455121576) < 1 / 2"
      by simp
    then have "\<bar>y - 5035177455121576\<bar> < 1 / 2" by (simp only: abs_less_iff)
    then show "\<bar>sqrt 5 / 2 powr of_int (1 - 52) - of_int 5035177455121576\<bar> < 1 / 2"
      unfolding y by simp
  qed
  then show ?thesis by (simp add: powr_minus_divide)
qed

lemma quotient_double:
  "round_double (2 / (5035177455121576 / 2 ^ 51)) = 8056283928194521 / 2 ^ 53"
  "round_double (1 / (5035177455121576 / 2 ^ 51)) = 8056283928194521 / 2 ^ 54"
proof -
  define y :: real where "y = 2 ^ 105 / 5035177455121576"
  have "\<bar>y - 8056283928194521\<bar> < 1 / 2"
    unfolding y_def abs_less_iff by simp
  then have yb: "\<bar>y - of_int 8056283928194521\<bar> < 1 / 2" by simp
  have p53: "(2::real) powr of_int (- 1 - 52) = 1 / 2 ^ 53" by (simp add: powr_minus_divide)
  have p54: "(2::real) powr of_int (- 2 - 52) = 1 / 2 ^ 54" by (simp add: powr_minus_divide)
  have "round_double (2 / (5035177455121576 / 2 ^ 51))
          = of_int 8056283928194521 * 2 powr of_int (- 1 - 52)"
  proof (rule round_double_eqI)
    show "2 powr of_int (- 1) \<le> \<bar>2 / (5035177455121576 / 2 ^ 51) :: real\<bar>"
      by (simp add: powr_minus_divide)
    show "\<bar>2 / (5035177455121576 / 2 ^ 51) :: real\<bar> < 2 powr of_int (- 1 + 1)"
      by simp
    have e: "2 / (5035177455121576 / 2 ^ 51) / 2 powr of_int (- 1 - 52) = y"
      unfolding p53 y_def by simp
    show "\<bar>2 / (5035177455121576 / 2 ^ 51) / 2 powr of_int (- 1 - 52)
            - of_int 8056283928194521\<bar> < (1 / 2 :: real)"
      unfolding e by (rule yb)
  qed
  then show "round_double (2 / (5035177455121576 / 2 ^ 51)) = 8056283928194521 / 2 ^ 53"
    unfolding p53 by simp
  have "round_double (1 / (5035177455121576 / 2 ^ 51))
          = of_int 8056283928194521 * 2 powr of_int (- 2 - 52)"
  proof (rule round_double_eqI)
    show "2 powr of_int (- 2) \<le> \<bar>1 / (5035177455121576 / 2 ^ 51) :: real\<bar>"
      by (simp add: powr_minus_divide)
    show "\<bar>1 / (5035177455121576 / 2 ^ 51) :: real\<bar> < 2 powr of_int (- 2 + 1)"
      by (simp add: powr_minus_divide)
    have e: "1 / (5035177455121576 / 2 ^ 51) / 2 powr of_int (- 2 - 52) = y"
      unfolding p54 y_def by simp
    show "\<bar>1 / (5035177455121576 / 2 ^ 51) / 2 powr of_int (- 2 - 52)
            - of_int 8056283928194521\<bar> < (1 / 2 :: real)"
      unfolding e by (rule yb)
  qed
  then show "round_double (1 / (5035177455121576 / 2 ^ 51)) = 8056283928194521 / 2 ^ 54"
    unfolding p54 by simp
qed

lemma generateEmbeddingSimple_fixture:
  "generateEmbeddingSimple ascii_lower (lit ''Ab a'')
     = map (\<lambda>b. if b = 39 then 8056283928194521 / 2 ^ 53
                else if b = 92 then 8056283928194521 / 2 ^ 54 else 0) [0..<128]"
proof -
  let ?ws = "[[97, 98], [97]] :: jstring list"
  let ?n = "5035177455121576 / 2 ^ 51 :: real"
  have counts: "bucket_counts ?ws = map (bucket_sum ?ws) [0..<128]" by (rule bucket_counts_eq)
  have "(\<Sum>c\<leftarrow>bucket_counts ?ws. c\<^sup>2) = (\<Sum>b\<leftarrow>[0..<128]. (bucket_sum ?ws b)\<^sup>2)"
    unfolding counts by (simp add: comp_def del: upt_Suc)
  also have "\<dots> = (bucket_sum ?ws 39)\<^sup>2 + (bucket_sum ?ws 92)\<^sup>2"
    by (rule sum_list_two_buckets) (simp add: bucket_sum_fixture)
  also have "\<dots> = 5" by (simp add: bucket_sum_fixture)
  finally have S: "(\<Sum>c\<leftarrow>bucket_counts ?ws. c\<^sup>2) = 5" .
  have "foldl (\<lambda>sum val. round_double (sum + round_double (val * val))) (real 0)
            (map real (bucket_counts ?ws))
          = real (0 + (\<Sum>c\<leftarrow>bucket_counts ?ws. c\<^sup>2))"
    by (rule foldl_squares_exact) (simp add: S)
  then have F: "foldl (\<lambda>sum val. round_double (sum + round_double (val * val))) 0
            (map real (bucket_counts ?ws)) = 5"
    by (simp add: S)
  have "generateEmbeddingSimple ascii_lower (lit ''Ab a'')
          = map (\<lambda>v. round_double (real v / ?n)) (bucket_counts ?ws)"
    unfolding generateEmbeddingSimple_def Let_def split_fixture F sqrt_5_double by simp
  also have "\<dots> = map (\<lambda>b. round_double (real (bucket_sum ?ws b) / ?n)) [0..<128]"
    unfolding counts by (simp add: comp_def del: upt_Suc)
  also have "\<dots> = map (\<lambda>b. if b = 39 then 8056283928194521 / 2 ^ 53
                else if b = 92 then 8056283928194521 / 2 ^ 54 else 0) [0..<128]"
  proof (rule map_cong[OF refl])
    fix b :: nat
    show "round_double (real (bucket_sum ?ws b) / ?n)
            = (if b = 39 then 8056283928194521 / 2 ^ 53
               else if b = 92 then 8056283928194521 / 2 ^ 54 else 0)"
      using quotient_double by (simp add: bucket_sum_fixture round_double_zero)
  qed
  finally show ?thesis .
qed

theorem generateEmbeddingSimple_spec_witness:
  "ascii_lower [] = []
   \<and> generateEmbeddingSimple ascii_lower [] = replicate 128 0
   \<and> bucket_sum (split_ws (ascii_lower (lit ''Ab a''))) 39 = 2
   \<and> \<bar>euclidean_norm (generateEmbeddingSimple ascii_lower (lit ''Ab a'')) - 1\<bar> \<le> 1 / 10 ^ 9
   \<and> length (generateEmbeddingSimple ascii_lower (lit ''Ab a'')) = 128"
proof -
  have l: "ascii_lower [] = []" by (simp add: ascii_lower_def)
  have b: "bucket_sum (split_ws (ascii_lower (lit ''Ab a''))) 39 = 2"
    by (simp add: split_fixture bucket_sum_def)
  then have nz: "\<not> (\<forall>b<128. bucket_sum (split_ws (ascii_lower (lit ''Ab a''))) b = 0)"
    by (intro notI) (drule spec[of _ 39], simp)
  note t = generateEmbeddingSimple_spec [of ascii_lower "lit ''Ab a''"]
  from t [THEN conjunct2, THEN conjunct2, THEN conjunct1] nz
  have "\<bar>euclidean_norm (generateEmbeddingSimple ascii_lower (lit ''Ab a'')) - 1\<bar> \<le> 1 / 10 ^ 9"
    by (simp only: if_False)
  moreover from t have "length (generateEmbeddingSimple ascii_lower (lit ''Ab a'')) = 128"
    by blast
  moreover from generateEmbeddingSimple_spec [of ascii_lower "[]"] l
  have "generateEmbeddingSimple ascii_lower [] = replicate 128 0" by blast
  ultimately show ?thesis using l b by blast
qed

text \<open>
  Claim C8 as stated, with a norm of exactly 1, fails on \<open>'Ab a'\<close>: not every bucket sum
  is zero, and the squares of the components add up to
  \<open>5 * 8056283928194521\<^sup>2 / 2 ^ 108\<close>, which is below 1.
\<close>

theorem generateEmbeddingSimple_norm_counterexample:
  "bucket_sum (split_ws (ascii_lower (lit ''Ab a''))) 39 = 2
   \<and> generateEmbeddingSimple ascii_lower (lit ''Ab a'') ! 39 = 8056283928194521 / 2 ^ 53
   \<and> generateEmbeddingSimple ascii_lower (lit ''Ab a'') ! 92 = 8056283928194521 / 2 ^ 54
   \<and> euclidean_norm (generateEmbeddingSimple ascii_lower (lit ''Ab a'')) < 1"
proof -
  let ?g = "\<lambda>b::nat. if b = 39 then 8056283928194521 / 2 ^ 53
                else if b = 92 then 8056283928194521 / 2 ^ 54 else (0::real)"
  have b: "bucket_sum (split_ws (ascii_lower (lit ''Ab a''))) 39 = 2"
    by (simp add: split_fixture bucket_sum_fixture)
  have n39: "generateEmbeddingSimple ascii_lower (lit ''Ab a'') ! 39 = 8056283928194521 / 2 ^ 53"
    unfolding generateEmbeddingSimple_fixture by (simp del: upt_Suc)
  have n92: "generateEmbeddingSimple ascii_lower (lit ''Ab a'') ! 92 = 8056283928194521 / 2 ^ 54"
    unfolding generateEmbeddingSimple_fixture by (simp del: upt_Suc)
  have "(\<Sum>x\<leftarrow>generateEmbeddingSimple ascii_lower (lit ''Ab a''). x\<^sup>2)
          = (\<Sum>b\<leftarrow>[0..<128]. (?g b)\<^sup>2)"
    unfolding generateEmbeddingSimple_fixture by (simp add: comp_def del: upt_Suc)
  also have "\<dots> = (?g 39)\<^sup>2 + (?g 92)\<^sup>2"
    by (rule sum_list_two_buckets) simp
  also have "\<dots> < 1" by (simp add: power2_eq_square)
  finally have "(\<Sum>x\<leftarrow>generateEmbeddingSimple ascii_lower (lit ''Ab a''). x\<^sup>2) < 1\<^sup>2"
    by simp
  then have "sqrt (\<Sum>x\<leftarrow>generateEmbeddingSimple ascii_lower (lit ''Ab a''). x\<^sup>2) < 1"
    by (intro real_less_lsqrt) simp_all
  then have "euclidean_norm (generateEmbeddingSimple ascii_lower (lit ''Ab a'')) < 1"
    by (simp only: euclidean_norm_def)
  with b n39 n92 show ?thesis by blast
qed

section \<open>The knowledge graph\<close>

text \<open>
  A row of the \<open>knowledgeNode\<close> table. The id is assigned by the database; \<open>type\<close> is
  a string column; \<open>connections\<close> holds the JSON text of an array of node ids, modelled
  as the list it encodes.
\<close>

record knowledge_node =
  node_id :: nat
  userId :: jstring
  label :: jstring
  ntype :: jstring
  description :: jstring
  strength :: real
  connections :: "nat list"

text \<open>\<open>prisma.knowledgeNode.findFirst({ where: { userId, label } })\<close>\<close>

definition findFirst :: "knowledge_node list \<Rightarrow> jstring \<Rightarrow> jstring \<Rightarrow> knowledge_node option" where
  "findFirst ns u l = find (\<lambda>n. userId n = u \<and> label n = l) ns"

text \<open>The id \<open>create\<close> assigns: one that no row has.\<close>

definition fresh_id :: "knowledge_node list \<Rightarrow> nat" where
  "fresh_id ns = Suc (foldr max (map node_id ns) 0)"

text \<open>\<open>prisma.knowledgeNode.update({ where: { id }, data })\<close>\<close>

definition update_node ::
  "nat \<Rightarrow> (knowledge_node \<Rightarrow> knowledge_node) \<Rightarrow> knowledge_node list \<Rightarrow> knowledge_node list" where
  "update_node i f ns = map (\<lambda>n. if node_id n = i then f n else n) ns"

definition type_name :: "entity_type \<Rightarrow> jstring" where
  "type_name t = (case t of Concept \<Rightarrow> lit ''concept'' | Entity \<Rightarrow> lit ''entity'' | Idea \<Rightarrow> lit ''idea'')"

text \<open>The body of the loop over \<open>typedEntities\<close>: find the node or create it.\<close>

definition upsert_entity :: "jstring \<Rightarrow> typed_entity \<Rightarrow> knowledge_node list \<Rightarrow> knowledge_node list" where
  "upsert_entity u typedEntity ns =
     (case findFirst ns u (name typedEntity) of
        None \<Rightarrow>
          ns @ [\<lparr> node_id = fresh_id ns,
                  userId = u,
                  label = name typedEntity,
                  ntype = type_name (etype typedEntity),
                  description = lit ''Extracted from document'',
                  strength = 1.0,
                  connections = [] \<rparr>]
      | Some existing \<Rightarrow>
          update_node (node_id existing)
            (\<lambda>n. n\<lparr> strength := strength existing + 0.5,
                     ntype := (if ntype existing = lit ''entity'' \<and> etype typedEntity \<noteq> Entity
                               then type_name (etype typedEntity) else ntype n) \<rparr>)
            ns)"

fun upsert_entities :: "jstring \<Rightarrow> typed_entity list \<Rightarrow> knowledge_node list \<Rightarrow> knowledge_node list" where
  "upsert_entities u [] ns = ns"
| "upsert_entities u (typedEntity # rest) ns = upsert_entities u rest (upsert_entity u typedEntity ns)"

text \<open>
  \<open>Array.from(new Set(xs))\<close>: a Set keeps the first occurrence of each element, in
  insertion order.
\<close>

fun add_all :: "'a list \<Rightarrow> 'a list \<Rightarrow> 'a list" where
  "add_all seen [] = seen"
| "add_all seen (x # xs) = add_all (if x \<in> set seen then seen else seen @ [x]) xs"

definition array_from_set :: "'a list \<Rightarrow> 'a list" where
  "array_from_set xs = add_all [] xs"

text \<open>\<open>newConnections\<close> for one node of \<open>nodes\<close>, given the id of the document node.\<close>

definition newConnections :: "nat \<Rightarrow> knowledge_node list \<Rightarrow> knowledge_node \<Rightarrow> nat list" where
  "newConnections docNodeId nodes node =
     (let otherNodeIds = map node_id (filter (\<lambda>n. node_id n \<noteq> node_id node) nodes);
          allConnections = otherNodeIds @ [docNodeId];
          existingConnections = connections node
      in array_from_set (existingConnections @ allConnections))"

text \<open>
  \<open>for (const node of nodes)\<close>: the nodes still to visit and the table. Each update
  writes the connections computed from the row as \<open>findMany\<close> returned it.
\<close>

fun link_nodes ::
  "nat \<Rightarrow> knowledge_node list \<Rightarrow> knowledge_node list \<Rightarrow> knowledge_node list \<Rightarrow> knowledge_node list" where
  "link_nodes docNodeId nodes [] ns = ns"
| "link_nodes docNodeId nodes (node # rest) ns =
     link_nodes docNodeId nodes rest
       (update_node (node_id node) (\<lambda>n. n\<lparr> connections := newConnections docNodeId nodes node \<rparr>) ns)"

text \<open>\<open>prisma.knowledgeNode.findMany({ where: { userId, label: { in: entityNames } } })\<close>\<close>

definition findMany :: "knowledge_node list \<Rightarrow> jstring \<Rightarrow> jstring list \<Rightarrow> knowledge_node list" where
  "findMany ns u entityNames = filter (\<lambda>n. userId n = u \<and> label n \<in> set entityNames) ns"

text \<open>
  The graph merge of \<open>processDocumentWithAI\<close> (the statements from the loop over
  \<open>typedEntities\<close> to the loop over \<open>nodes\<close>), which the specification calls
  \<open>mergeDocument\<close>: the owner, the label of the document node, the typed entities and
  the table of nodes.
\<close>

definition mergeDocument ::
  "jstring \<Rightarrow> jstring \<Rightarrow> typed_entity list \<Rightarrow> knowledge_node list \<Rightarrow> knowledge_node list" where
  "mergeDocument u docNodeLabel typedEntities ns =
     (let entityNames = map name typedEntities;
          ns1 = upsert_entities u typedEntities ns;
          nodes = findMany ns1 u entityNames
      in case findFirst ns1 u docNodeLabel of
           Some docNode \<Rightarrow> link_nodes (node_id docNode) nodes nodes ns1
         | None \<Rightarrow>
             (let docNode = \<lparr> node_id = fresh_id ns1,
                              userId = u,
                              label = docNodeLabel,
                              ntype = lit ''document'',
                              description = lit ''Source document'',
                              strength = 2.0,
                              connections = map node_id nodes \<rparr>
              in link_nodes (node_id docNode) nodes nodes (ns1 @ [docNode])))"

text \<open>
  What the loop over the entities keeps of a node: its id, owner, label and connections;
  its strength does not fall; a node that is not an entity node of the call is untouched.
\<close>

definition kept :: "jstring \<Rightarrow> jstring list \<Rightarrow> knowledge_node \<Rightarrow> knowledge_node \<Rightarrow> bool" where
  "kept u names a b \<longleftrightarrow>
     node_id a = node_id b \<and> userId a = userId b \<and> label a = label b
     \<and> connections a = connections b \<and> strength a \<le> strength b
     \<and> (\<not> (userId a = u \<and> label a \<in> set names) \<longrightarrow> a = b)"

text \<open>
  The loop over \<open>nodes\<close> in closed form: what it does to one row, given the document
  node's id \<open>d\<close> and the entity nodes of the call.
\<close>

definition relink :: "nat \<Rightarrow> jstring \<Rightarrow> jstring list \<Rightarrow> knowledge_node list \<Rightarrow> knowledge_node \<Rightarrow> knowledge_node" where
  "relink d u names nodes n =
     (if userId n = u \<and> label n \<in> set names
      then n\<lparr> connections := newConnections d nodes n \<rparr> else n)"

text \<open>The document node \<open>mergeDocument\<close> creates when it finds none.\<close>

definition created_doc_node ::
  "jstring \<Rightarrow> jstring \<Rightarrow> knowledge_node list \<Rightarrow> knowledge_node list \<Rightarrow> knowledge_node" where
  "created_doc_node u docNodeLabel ns1 nodes =
     \<lparr> node_id = fresh_id ns1, userId = u, label = docNodeLabel, ntype = lit ''document'',
       description = lit ''Source document'', strength = 2.0, connections = map node_id nodes \<rparr>"

text \<open>What a repeated merge keeps of each row.\<close>

definition same_edges :: "knowledge_node \<Rightarrow> knowledge_node \<Rightarrow> bool" where
  "same_edges a c \<longleftrightarrow>
     node_id c = node_id a \<and> userId c = userId a \<and> label c = label a
     \<and> connections c = connections a \<and> strength a \<le> strength c"

text \<open>The connections stored for an id before a merge: none when the id is new.\<close>

definition stored_connections :: "knowledge_node list \<Rightarrow> nat \<Rightarrow> nat set" where
  "stored_connections ns i =
     (case find (\<lambda>m. node_id m = i) ns of Some m \<Rightarrow> set (connections m) | None \<Rightarrow> {})"

text \<open>The ids of the entity nodes of a call: the owner's nodes labelled with one of its names.\<close>

definition entity_ids :: "knowledge_node list \<Rightarrow> jstring \<Rightarrow> jstring list \<Rightarrow> nat set" where
  "entity_ids ns u names = node_id ` {m \<in> set ns. userId m = u \<and> label m \<in> set names}"

definition entities_aba :: "typed_entity list" where
  "entities_aba = [\<lparr> name = lit ''A'', etype = Entity \<rparr>,
                   \<lparr> name = lit ''B'', etype = Idea \<rparr>,
                   \<lparr> name = lit ''A'', etype = Concept \<rparr>]"

text \<open>The table after a first document titled React, with the entity Hooks.\<close>

definition store_react :: "knowledge_node list" where
  "store_react = mergeDocument (lit ''u1'') (lit ''React'') [\<lparr> name = lit ''Hooks'', etype = Entity \<rparr>] []"

text \<open>A node, for evaluating the merge.\<close>

definition node_react :: knowledge_node where
  "node_react = \<lparr> node_id = 1, userId = lit ''u1'', label = lit ''React'', ntype = lit ''entity'',
                   description = lit ''Extracted from document'', strength = 1, connections = [] \<rparr>"


subsection \<open>One typed entity\<close>

lemma findFirst_Some:
  "findFirst ns u l = Some x \<Longrightarrow> x \<in> set ns \<and> userId x = u \<and> label x = l"
  by (auto simp: findFirst_def find_Some_iff)

lemma findFirst_None_iff:
  "findFirst ns u l = None \<longleftrightarrow> (\<forall>n\<in>set ns. \<not> (userId n = u \<and> label n = l))"
  by (auto simp: findFirst_def find_None_iff)

lemma distinct_ids_eq:
  "distinct (map node_id ns) \<Longrightarrow> a \<in> set ns \<Longrightarrow> b \<in> set ns \<Longrightarrow> node_id a = node_id b \<Longrightarrow> a = b"
  by (meson distinct_map inj_onD)

lemma update_node_distinct:
  "distinct (map node_id ns) \<Longrightarrow> x \<in> set ns \<Longrightarrow>
   update_node (node_id x) f ns = map (\<lambda>n. if n = x then f x else n) ns"
  unfolding update_node_def
  by (rule map_cong) (auto dest: distinct_ids_eq)

text \<open>
  Claim C2: in a table whose ids are distinct, processing one typed entity either finds
  no node of the owner with the entity's name as label, and appends a node with the
  entity's type, strength 1 and no connections; or finds one, and changes that node only:
  its strength grows by 0.5, and its type becomes the entity's type when the stored type
  is \<open>entity\<close> and the entity's type is \<open>concept\<close> or \<open>idea\<close>, and stays as stored
  otherwise.
\<close>

theorem upsert_entity_spec:
  assumes "distinct (map node_id ns)"
  shows "case findFirst ns u (name e) of
           None \<Rightarrow>
             upsert_entity u e ns =
               ns @ [\<lparr> node_id = fresh_id ns, userId = u, label = name e,
                       ntype = type_name (etype e),
                       description = lit ''Extracted from document'',
                       strength = 1, connections = [] \<rparr>]
         | Some existing \<Rightarrow>
             existing \<in> set ns \<and> userId existing = u \<and> label existing = name e
             \<and> upsert_entity u e ns =
                 map (\<lambda>n. if n = existing
                          then existing\<lparr> strength := strength existing + 0.5,
                                          ntype := (if ntype existing = lit ''entity''
                                                       \<and> (etype e = Concept \<or> etype e = Idea)
                                                    then type_name (etype e)
                                                    else ntype existing) \<rparr>
                          else n) ns"
proof (cases "findFirst ns u (name e)")
  case None
  then show ?thesis by (simp add: upsert_entity_def)
next
  case (Some existing)
  from findFirst_Some[OF Some] have x: "existing \<in> set ns" "userId existing = u" "label existing = name e"
    by auto
  have t: "etype e \<noteq> Entity \<longleftrightarrow> etype e = Concept \<or> etype e = Idea"
    by (cases "etype e") auto
  have "upsert_entity u e ns =
          update_node (node_id existing)
            (\<lambda>n. n\<lparr> strength := strength existing + 0.5,
                     ntype := (if ntype existing = lit ''entity'' \<and> etype e \<noteq> Entity
                               then type_name (etype e) else ntype n) \<rparr>) ns"
    using Some by (simp add: upsert_entity_def)
  also have "\<dots> = map (\<lambda>n. if n = existing
                          then existing\<lparr> strength := strength existing + 0.5,
                                          ntype := (if ntype existing = lit ''entity'' \<and> etype e \<noteq> Entity
                               then type_name (etype e) else ntype existing) \<rparr>
                          else n) ns"
    by (rule update_node_distinct[OF assms x(1)])
  finally show ?thesis using Some x t by simp
qed

theorem upsert_entity_spec_witness:
  "distinct (map node_id [node_react])
   \<and> upsert_entity (lit ''u1'') \<lparr> name = lit ''React'', etype = Concept \<rparr> [node_react]
       = [node_react\<lparr> strength := 1.5, ntype := lit ''concept'' \<rparr>]
   \<and> upsert_entity (lit ''u1'') \<lparr> name = lit ''Vue'', etype = Idea \<rparr> [node_react]
       = [node_react,
          \<lparr> node_id = 2, userId = lit ''u1'', label = lit ''Vue'', ntype = lit ''idea'',
            description = lit ''Extracted from document'', strength = 1, connections = [] \<rparr>]"
proof -
  have d: "distinct (map node_id [node_react])" by simp
  have f1: "findFirst [node_react] (lit ''u1'') (lit ''React'') = Some node_react"
    by (simp add: findFirst_def node_react_def)
  have f2: "findFirst [node_react] (lit ''u1'') (lit ''Vue'') = None"
    by (simp add: findFirst_def node_react_def lit_def)
  from upsert_entity_spec [OF d, of "lit ''u1''" "\<lparr> name = lit ''React'', etype = Concept \<rparr>"] f1
  have a: "upsert_entity (lit ''u1'') \<lparr> name = lit ''React'', etype = Concept \<rparr> [node_react]
       = [node_react\<lparr> strength := 1.5, ntype := lit ''concept'' \<rparr>]"
    by (simp add: node_react_def type_name_def)
  from upsert_entity_spec [OF d, of "lit ''u1''" "\<lparr> name = lit ''Vue'', etype = Idea \<rparr>"] f2
  have b: "upsert_entity (lit ''u1'') \<lparr> name = lit ''Vue'', etype = Idea \<rparr> [node_react]
       = [node_react,
          \<lparr> node_id = 2, userId = lit ''u1'', label = lit ''Vue'', ntype = lit ''idea'',
            description = lit ''Extracted from document'', strength = 1, connections = [] \<rparr>]"
    by (simp add: node_react_def type_name_def fresh_id_def)
  from d a b show ?thesis by blast
qed

subsection \<open>The merge in closed form\<close>

subsection \<open>Sets as arrays\<close>

lemma set_add_all: "set (add_all seen xs) = set seen \<union> set xs"
  by (induction xs arbitrary: seen) auto

lemma distinct_add_all: "distinct seen \<Longrightarrow> distinct (add_all seen xs)"
  by (induction xs arbitrary: seen) auto

lemma add_all_append: "add_all seen (xs @ ys) = add_all (add_all seen xs) ys"
  by (induction xs arbitrary: seen) auto

lemma add_all_absorb: "set xs \<subseteq> set seen \<Longrightarrow> add_all seen xs = seen"
  by (induction xs arbitrary: seen) auto

lemma add_all_distinct_new:
  "distinct xs \<Longrightarrow> set xs \<inter> set seen = {} \<Longrightarrow> add_all seen xs = seen @ xs"
  by (induction xs arbitrary: seen) auto

lemma set_array_from_set: "set (array_from_set xs) = set xs"
  by (simp add: array_from_set_def set_add_all)

lemma distinct_array_from_set: "distinct (array_from_set xs)"
  by (simp add: array_from_set_def distinct_add_all)

lemma array_from_set_absorb:
  "array_from_set (array_from_set (xs @ ys) @ ys) = array_from_set (xs @ ys)"
proof -
  let ?a = "array_from_set (xs @ ys)"
  have "add_all [] ?a = ?a"
    using add_all_distinct_new[of ?a "[]"] by (simp add: distinct_array_from_set)
  moreover have "add_all ?a ys = ?a"
    by (rule add_all_absorb) (simp add: set_array_from_set)
  ultimately show ?thesis
    by (simp add: array_from_set_def add_all_append)
qed

subsection \<open>Fresh ids\<close>

lemma le_foldr_max: "x \<in> set xs \<Longrightarrow> x \<le> foldr max xs (0::nat)"
  by (induction xs) auto

lemma fresh_id_greater: "n \<in> set ns \<Longrightarrow> node_id n < fresh_id ns"
  using le_foldr_max[of "node_id n" "map node_id ns"] by (simp add: fresh_id_def less_Suc_eq_le)

lemma fresh_id_notin: "fresh_id ns \<notin> node_id ` set ns"
  using fresh_id_greater by fastforce


lemma kept_refl: "kept u names a a"
  by (simp add: kept_def)

lemma kept_fields:
  "kept u names a b \<Longrightarrow>
     node_id a = node_id b \<and> userId a = userId b \<and> label a = label b
     \<and> connections a = connections b \<and> strength a \<le> strength b"
  unfolding kept_def by blast

lemma kept_outside:
  "kept u names a b \<Longrightarrow> \<not> (userId a = u \<and> label a \<in> set names) \<Longrightarrow> a = b"
  unfolding kept_def by blast

lemma keptI:
  "node_id a = node_id b \<Longrightarrow> userId a = userId b \<Longrightarrow> label a = label b \<Longrightarrow>
   connections a = connections b \<Longrightarrow> strength a \<le> strength b \<Longrightarrow>
   (\<not> (userId a = u \<and> label a \<in> set names) \<Longrightarrow> a = b) \<Longrightarrow> kept u names a b"
  unfolding kept_def by blast

lemma kept_trans:
  assumes ab: "kept u names a b" and bc: "kept u names b c"
  shows "kept u names a c"
proof (rule keptI)
  note f = kept_fields[OF ab] kept_fields[OF bc]
  from f show "node_id a = node_id c" by simp
  from f show "userId a = userId c" by simp
  from f show "label a = label c" by simp
  from f show "connections a = connections c" by simp
  from f show "strength a \<le> strength c" by linarith
  assume out: "\<not> (userId a = u \<and> label a \<in> set names)"
  with ab have e: "a = b" by (rule kept_outside)
  with out have "\<not> (userId b = u \<and> label b \<in> set names)" by simp
  with bc have "b = c" by (rule kept_outside)
  with e show "a = c" by simp
qed

lemma list_all2_kept_refl: "list_all2 (kept u names) ns ns"
  by (simp add: list_all2_refl kept_refl)

lemma list_all2_kept_trans:
  "list_all2 (kept u names) a b \<Longrightarrow> list_all2 (kept u names) b c \<Longrightarrow> list_all2 (kept u names) a c"
  by (rule list_all2_trans[where ?P1.0 = "kept u names" and ?P2.0 = "kept u names"])
    (erule (1) kept_trans)

lemma kept_ids: "list_all2 (kept u names) a b \<Longrightarrow> map node_id a = map node_id b"
  by (induction rule: list_all2_induct) (auto dest: kept_fields)

lemma kept_connections: "list_all2 (kept u names) a b \<Longrightarrow> map connections a = map connections b"
  by (induction rule: list_all2_induct) (auto dest: kept_fields)

lemma kept_labels: "list_all2 (kept u names) a b \<Longrightarrow> map label a = map label b \<and> map userId a = map userId b"
  by (induction rule: list_all2_induct) (auto dest: kept_fields)

lemma kept_findFirst:
  "list_all2 (kept u names) a b \<Longrightarrow> rel_option (kept u names) (findFirst a v l) (findFirst b v l)"
  by (induction rule: list_all2_induct) (auto simp: findFirst_def dest: kept_fields)

lemma kept_findMany:
  "list_all2 (kept u names) a b \<Longrightarrow> list_all2 (kept u names) (findMany a v ls) (findMany b v ls)"
  by (induction rule: list_all2_induct) (auto simp: findMany_def dest: kept_fields)

lemma findFirst_append:
  "findFirst (a @ b) u l = (case findFirst a u l of None \<Rightarrow> findFirst b u l | Some x \<Rightarrow> Some x)"
  by (induction a) (auto simp: findFirst_def)

lemma findMany_append: "findMany (a @ b) u ls = findMany a u ls @ findMany b u ls"
  by (simp add: findMany_def)

text \<open>One entity: the table is kept, and at most one node is appended.\<close>

lemma upsert_entity_found:
  assumes "distinct (map node_id ns)" "findFirst ns u (name e) = Some x" "name e \<in> set names"
  shows "list_all2 (kept u names) ns (upsert_entity u e ns)"
proof -
  from findFirst_Some[OF assms(2)] have x: "x \<in> set ns" "userId x = u" "label x = name e" by auto
  let ?f = "\<lambda>n. n\<lparr> strength := strength x + 0.5,
                     ntype := (if ntype x = lit ''entity'' \<and> etype e \<noteq> Entity
                               then type_name (etype e) else ntype n) \<rparr>"
  have eq: "upsert_entity u e ns = map (\<lambda>n. if n = x then ?f x else n) ns"
    using assms(2) update_node_distinct[OF assms(1) x(1), of ?f] by (simp add: upsert_entity_def)
  have "list_all2 (kept u names) ns (map (\<lambda>n. if n = x then ?f x else n) ns)"
    unfolding list_all2_map2
  proof (rule list.rel_refl_strong)
    fix n assume "n \<in> set ns"
    show "kept u names n (if n = x then ?f x else n)"
      using x assms(3) by (cases "n = x") (auto intro!: keptI kept_refl)
  qed
  with eq show ?thesis by simp
qed


lemma list_all2_right_ex: "list_all2 P xs ys \<Longrightarrow> y \<in> set ys \<Longrightarrow> \<exists>x\<in>set xs. P x y"
  by (induction rule: list_all2_induct) auto

lemma list_all2_left_ex: "list_all2 P xs ys \<Longrightarrow> x \<in> set xs \<Longrightarrow> \<exists>y\<in>set ys. P x y"
  by (induction rule: list_all2_induct) auto

lemma upsert_entity_new:
  assumes "findFirst ns u (name e) = None"
  shows "upsert_entity u e ns =
           ns @ [\<lparr> node_id = fresh_id ns, userId = u, label = name e,
                   ntype = type_name (etype e), description = lit ''Extracted from document'',
                   strength = 1, connections = [] \<rparr>]"
  using assms by (simp add: upsert_entity_def)

lemma upsert_entity_grows:
  assumes d: "distinct (map node_id ns)" and n: "name e \<in> set names"
  shows "\<exists>ns' extra. upsert_entity u e ns = ns' @ extra
           \<and> list_all2 (kept u names) ns ns'
           \<and> (\<forall>x\<in>set extra. userId x = u \<and> label x \<in> set names \<and> connections x = []
                              \<and> node_id x \<notin> node_id ` set ns)
           \<and> distinct (map node_id (upsert_entity u e ns))
           \<and> (findFirst ns u (name e) \<noteq> None \<longrightarrow> extra = [])"
proof (cases "findFirst ns u (name e)")
  case None
  let ?new = "\<lparr> node_id = fresh_id ns, userId = u, label = name e,
                   ntype = type_name (etype e), description = lit ''Extracted from document'',
                   strength = 1, connections = [] \<rparr>"
  have r: "upsert_entity u e ns = ns @ [?new]" by (rule upsert_entity_new[OF None])
  have "distinct (map node_id (ns @ [?new]))"
    using d fresh_id_notin[of ns] by simp
  with r n None show ?thesis
    by (intro exI[of _ ns] exI[of _ "[?new]"]) (simp add: list_all2_kept_refl fresh_id_notin)
next
  case (Some x)
  have k: "list_all2 (kept u names) ns (upsert_entity u e ns)"
    by (rule upsert_entity_found[OF d Some n])
  then have "map node_id (upsert_entity u e ns) = map node_id ns" by (simp add: kept_ids)
  with d have "distinct (map node_id (upsert_entity u e ns))" by simp
  with k show ?thesis
    by (intro exI[of _ "upsert_entity u e ns"] exI[of _ "[]"]) simp
qed

lemma upsert_entities_grows:
  assumes "distinct (map node_id ns)" and "name ` set es \<subseteq> set names"
  shows "\<exists>ns' extra. upsert_entities u es ns = ns' @ extra
           \<and> list_all2 (kept u names) ns ns'
           \<and> (\<forall>x\<in>set extra. userId x = u \<and> label x \<in> set names \<and> connections x = []
                              \<and> node_id x \<notin> node_id ` set ns)
           \<and> distinct (map node_id (upsert_entities u es ns))"
  using assms
proof (induction es arbitrary: ns)
  case Nil
  then show ?case
    by (intro exI[of _ ns] exI[of _ "[]"]) (simp add: list_all2_kept_refl)
next
  case (Cons e es)
  from Cons.prems have n: "name e \<in> set names" and ns: "name ` set es \<subseteq> set names" by auto
  from upsert_entity_grows[OF Cons.prems(1) n, of u]
  obtain a ex1 where s1: "upsert_entity u e ns = a @ ex1"
    and k1: "list_all2 (kept u names) ns a"
    and e1: "\<forall>x\<in>set ex1. userId x = u \<and> label x \<in> set names \<and> connections x = []
                              \<and> node_id x \<notin> node_id ` set ns"
    and d1: "distinct (map node_id (upsert_entity u e ns))" by blast
  from Cons.IH[OF d1 ns]
  obtain m ex2 where s2: "upsert_entities u es (upsert_entity u e ns) = m @ ex2"
    and k2: "list_all2 (kept u names) (upsert_entity u e ns) m"
    and e2: "\<forall>x\<in>set ex2. userId x = u \<and> label x \<in> set names \<and> connections x = []
                              \<and> node_id x \<notin> node_id ` set (upsert_entity u e ns)"
    and d2: "distinct (map node_id (upsert_entities u es (upsert_entity u e ns)))" by blast
  from k2 s1 obtain m1 m2 where m: "m = m1 @ m2"
    and km1: "list_all2 (kept u names) a m1" and km2: "list_all2 (kept u names) ex1 m2"
    by (auto simp: list_all2_append1)
  have k: "list_all2 (kept u names) ns m1"
    by (rule list_all2_kept_trans[OF k1 km1])
  have ids_a: "node_id ` set ns = node_id ` set a"
    using kept_ids[OF k1] by (metis list.set_map)
  have p2: "\<forall>x\<in>set m2. userId x = u \<and> label x \<in> set names \<and> connections x = []
                              \<and> node_id x \<notin> node_id ` set ns"
  proof
    fix x assume "x \<in> set m2"
    with km2 obtain y where y: "y \<in> set ex1" "kept u names y x"
      by (blast dest: list_all2_right_ex)
    from e1 y(1) have "userId y = u \<and> label y \<in> set names \<and> connections y = []
                              \<and> node_id y \<notin> node_id ` set ns" by blast
    with kept_fields[OF y(2)]
    show "userId x = u \<and> label x \<in> set names \<and> connections x = []
                              \<and> node_id x \<notin> node_id ` set ns" by simp
  qed
  have p3: "\<forall>x\<in>set ex2. userId x = u \<and> label x \<in> set names \<and> connections x = []
                              \<and> node_id x \<notin> node_id ` set ns"
  proof
    fix x assume "x \<in> set ex2"
    with e2 have x: "userId x = u \<and> label x \<in> set names \<and> connections x = []"
      and nx: "node_id x \<notin> node_id ` set (upsert_entity u e ns)" by auto
    from nx s1 have "node_id x \<notin> node_id ` set a" by auto
    with ids_a x show "userId x = u \<and> label x \<in> set names \<and> connections x = []
                              \<and> node_id x \<notin> node_id ` set ns" by simp
  qed
  have "upsert_entities u (e # es) ns = m1 @ (m2 @ ex2)"
    using s2 m by simp
  moreover have "\<forall>x\<in>set (m2 @ ex2). userId x = u \<and> label x \<in> set names \<and> connections x = []
                              \<and> node_id x \<notin> node_id ` set ns"
    using p2 p3 by auto
  moreover have "distinct (map node_id (upsert_entities u (e # es) ns))"
    using d2 by simp
  ultimately show ?case using k by blast
qed

lemma upsert_entities_distinct:
  "distinct (map node_id ns) \<Longrightarrow> distinct (map node_id (upsert_entities u es ns))"
  using upsert_entities_grows[of ns es "map name es" u] by auto


lemma find_map_same:
  "(\<And>x. x \<in> set xs \<Longrightarrow> P (g x) = P x) \<Longrightarrow> find P (map g xs) = map_option g (find P xs)"
  by (induction xs) auto

lemma kept_findFirst_Some:
  assumes "list_all2 (kept u names) a b" "findFirst a v l = Some x"
  shows "\<exists>y. findFirst b v l = Some y \<and> kept u names x y"
  using kept_findFirst[OF assms(1), of v l] assms(2) by (auto simp: option_rel_Some1)

lemma kept_findFirst_None:
  assumes "list_all2 (kept u names) a b"
  shows "findFirst a v l = None \<longleftrightarrow> findFirst b v l = None"
  using kept_findFirst[OF assms, of v l] by (auto elim: option.rel_cases)

lemma names_subset: "name ` set es \<subseteq> set (map name es)"
  by simp

lemma upsert_entities_first:
  assumes "distinct (map node_id ns)" "name ` set es \<subseteq> set names" "findFirst ns v l = Some x"
  shows "\<exists>y. findFirst (upsert_entities u es ns) v l = Some y \<and> kept u names x y"
proof -
  from upsert_entities_grows[OF assms(1,2), of u]
  obtain ns' extra where r: "upsert_entities u es ns = ns' @ extra"
    and k: "list_all2 (kept u names) ns ns'" by blast
  from kept_findFirst_Some[OF k assms(3)] obtain y where
    y: "findFirst ns' v l = Some y" "kept u names x y" by blast
  then show ?thesis by (simp add: r findFirst_append)
qed

lemma upsert_entity_strength:
  assumes d: "distinct (map node_id ns)" and f: "findFirst ns u (name e) = Some a"
  shows "\<exists>b. findFirst (upsert_entity u e ns) u (name e) = Some b
              \<and> node_id b = node_id a \<and> strength b = strength a + 0.5"
proof -
  from findFirst_Some[OF f] have a: "a \<in> set ns" "userId a = u" "label a = name e" by auto
  let ?f = "\<lambda>n. n\<lparr> strength := strength a + 0.5,
                     ntype := (if ntype a = lit ''entity'' \<and> etype e \<noteq> Entity
                               then type_name (etype e) else ntype n) \<rparr>"
  let ?g = "\<lambda>n. if n = a then ?f a else n"
  have eq: "upsert_entity u e ns = map ?g ns"
    using f update_node_distinct[OF d a(1), of ?f] by (simp add: upsert_entity_def)
  have "findFirst (map ?g ns) u (name e) = map_option ?g (findFirst ns u (name e))"
    unfolding findFirst_def by (rule find_map_same) auto
  with f eq show ?thesis by simp
qed

lemma upsert_entity_present:
  "findFirst (upsert_entity u e ns) u (name e) \<noteq> None"
proof (cases "findFirst ns u (name e)")
  case None
  then show ?thesis
    by (simp add: upsert_entity_new findFirst_append) (simp add: findFirst_def)
next
  case (Some a)
  from findFirst_Some[OF Some] have a: "a \<in> set ns" "userId a = u" "label a = name e" by auto
  let ?f = "\<lambda>n. n\<lparr> strength := strength a + 0.5,
                     ntype := (if ntype a = lit ''entity'' \<and> etype e \<noteq> Entity
                               then type_name (etype e) else ntype n) \<rparr>"
  let ?g = "\<lambda>n. if node_id n = node_id a then ?f n else n"
  have "upsert_entity u e ns = map ?g ns"
    using Some by (simp add: upsert_entity_def update_node_def)
  with a(1) have "?g a \<in> set (upsert_entity u e ns)"
    by (simp only: set_map) (rule imageI)
  moreover have "userId (?g a) = u \<and> label (?g a) = name e" using a by simp
  ultimately have "\<exists>n\<in>set (upsert_entity u e ns). userId n = u \<and> label n = name e"
    by blast
  then show ?thesis by (auto simp: findFirst_None_iff)
qed

lemma upsert_entities_present:
  assumes "distinct (map node_id ns)" "e \<in> set es"
  shows "findFirst (upsert_entities u es ns) u (name e) \<noteq> None"
  using assms
proof (induction es arbitrary: ns)
  case Nil
  then show ?case by simp
next
  case (Cons e' es)
  have d1: "distinct (map node_id (upsert_entity u e' ns))"
    using upsert_entities_distinct[OF Cons.prems(1), of u "[e']"] by simp
  show ?case
  proof (cases "e \<in> set es")
    case True
    from Cons.IH[OF d1 True] show ?thesis by simp
  next
    case False
    with Cons.prems have "e = e'" by simp
    then obtain x where "findFirst (upsert_entity u e' ns) u (name e) = Some x"
      using upsert_entity_present[of u e' ns] by auto
    from upsert_entities_first[OF d1 names_subset[of es] this, where u = u]
    show ?thesis by auto
  qed
qed

lemma upsert_entities_all_present:
  assumes "distinct (map node_id ns)" "name ` set es \<subseteq> set names"
    "\<forall>e\<in>set es. findFirst ns u (name e) \<noteq> None"
  shows "list_all2 (kept u names) ns (upsert_entities u es ns)"
  using assms
proof (induction es arbitrary: ns)
  case Nil
  then show ?case by (simp add: list_all2_kept_refl)
next
  case (Cons e es)
  from Cons.prems obtain x where x: "findFirst ns u (name e) = Some x" by auto
  from Cons.prems have n: "name e \<in> set names" "name ` set es \<subseteq> set names" by auto
  have k1: "list_all2 (kept u names) ns (upsert_entity u e ns)"
    by (rule upsert_entity_found[OF Cons.prems(1) x n(1)])
  have d1: "distinct (map node_id (upsert_entity u e ns))"
    using kept_ids[OF k1] Cons.prems(1) by simp
  have p1: "\<forall>e'\<in>set es. findFirst (upsert_entity u e ns) u (name e') \<noteq> None"
    using Cons.prems(3) kept_findFirst_None[OF k1] by auto
  from Cons.IH[OF d1 n(2) p1] k1 show ?case
    by (auto intro: list_all2_kept_trans)
qed

lemma upsert_entities_strength:
  assumes "distinct (map node_id ns)" "e \<in> set es" "findFirst ns u (name e) = Some a"
  shows "\<exists>b. findFirst (upsert_entities u es ns) u (name e) = Some b
              \<and> node_id b = node_id a \<and> strength a + 0.5 \<le> strength b"
  using assms
proof (induction es arbitrary: ns a)
  case Nil
  then show ?case by simp
next
  case (Cons e' es)
  have d1: "distinct (map node_id (upsert_entity u e' ns))"
    using upsert_entities_distinct[OF Cons.prems(1), of u "[e']"] by simp
  show ?case
  proof (cases "e \<in> set es")
    case True
    from upsert_entities_first[OF Cons.prems(1) names_subset[of "[e']"] Cons.prems(3), where u = u]
    obtain a1 where a1: "findFirst (upsert_entity u e' ns) u (name e) = Some a1"
      "kept u (map name [e']) a a1" by auto
    from Cons.IH[OF d1 True a1(1)] obtain b where
      b: "findFirst (upsert_entities u es (upsert_entity u e' ns)) u (name e) = Some b"
      "node_id b = node_id a1" "strength a1 + 0.5 \<le> strength b" by blast
    with kept_fields[OF a1(2)] show ?thesis by (intro exI[of _ b]) simp
  next
    case False
    with Cons.prems have e: "e = e'" by simp
    from upsert_entity_strength[OF Cons.prems(1) Cons.prems(3)] e
    obtain a1 where a1: "findFirst (upsert_entity u e' ns) u (name e) = Some a1"
      "node_id a1 = node_id a" "strength a1 = strength a + 0.5" by auto
    from upsert_entities_first[OF d1 names_subset[of es] a1(1), where u = u]
    obtain b where b: "findFirst (upsert_entities u es (upsert_entity u e' ns)) u (name e) = Some b"
      "kept u (map name es) a1 b" by auto
    with a1 kept_fields[OF b(2)] show ?thesis by (intro exI[of _ b]) simp
  qed
qed


lemma newConnections_ids:
  "newConnections d nodes node =
     array_from_set (connections node @ filter (\<lambda>i. i \<noteq> node_id node) (map node_id nodes) @ [d])"
  by (simp add: newConnections_def filter_map comp_def)

lemma link_nodes_by_id:
  "distinct (map node_id rest) \<Longrightarrow>
   link_nodes d nodes rest ns =
     map (\<lambda>n. case find (\<lambda>m. node_id m = node_id n) rest of
                 Some m \<Rightarrow> n\<lparr> connections := newConnections d nodes m \<rparr>
               | None \<Rightarrow> n) ns"
proof (induction rest arbitrary: ns)
  case Nil
  then show ?case by simp
next
  case (Cons node rest)
  from Cons.prems have d: "distinct (map node_id rest)" and nin: "node_id node \<notin> node_id ` set rest"
    by auto
  have none: "find (\<lambda>m. node_id m = node_id node) rest = None"
  proof -
    have "\<not> (\<exists>x. x \<in> set rest \<and> node_id x = node_id node)"
    proof
      assume "\<exists>x. x \<in> set rest \<and> node_id x = node_id node"
      then obtain x where "x \<in> set rest" "node_id x = node_id node" by blast
      then have "node_id node \<in> node_id ` set rest" by (metis imageI)
      with nin show False by simp
    qed
    then show ?thesis unfolding find_None_iff .
  qed
  show ?case
    unfolding link_nodes.simps Cons.IH[OF d] update_node_def map_map
    by (rule map_cong) (auto simp: none)
qed

lemma find_by_id:
  assumes d: "distinct (map node_id ns)" and sub: "set nodes \<subseteq> set ns" and n: "n \<in> set ns"
  shows "find (\<lambda>m. node_id m = node_id n) nodes = (if n \<in> set nodes then Some n else None)"
proof (cases "find (\<lambda>m. node_id m = node_id n) nodes")
  case None
  then have "n \<notin> set nodes" by (auto simp: find_None_iff)
  with None show ?thesis by simp
next
  case (Some m)
  then have m: "m \<in> set nodes" "node_id m = node_id n"
    by (auto simp: find_Some_iff)
  with sub have "m \<in> set ns" by auto
  from distinct_ids_eq[OF d this n m(2)] have "m = n" .
  with Some m show ?thesis by simp
qed

lemma link_nodes_members:
  assumes d: "distinct (map node_id ns)" and sub: "set nodes \<subseteq> set ns"
    and dn: "distinct (map node_id nodes)"
  shows "link_nodes docId nodes nodes ns =
           map (\<lambda>n. if n \<in> set nodes then n\<lparr> connections := newConnections docId nodes n \<rparr> else n) ns"
  unfolding link_nodes_by_id[OF dn]
  by (rule map_cong) (simp_all add: find_by_id[OF d sub])


lemma findMany_subset: "set (findMany ns u names) \<subseteq> set ns"
  by (auto simp: findMany_def)

lemma findMany_distinct: "distinct (map node_id ns) \<Longrightarrow> distinct (map node_id (findMany ns u names))"
  by (simp add: findMany_def distinct_map_filter)

lemma in_findMany: "n \<in> set (findMany ns u names) \<longleftrightarrow> n \<in> set ns \<and> userId n = u \<and> label n \<in> set names"
  by (auto simp: findMany_def)

lemma link_nodes_relink:
  assumes d: "distinct (map node_id ns)"
  shows "link_nodes docId (findMany ns u names) (findMany ns u names) ns
           = map (relink docId u names (findMany ns u names)) ns"
  unfolding link_nodes_members[OF d findMany_subset findMany_distinct[OF d]]
  by (rule map_cong) (simp_all add: relink_def in_findMany)

lemma mergeDocument_closed:
  assumes d: "distinct (map node_id ns)"
  shows "mergeDocument u L es ns =
           (case findFirst (upsert_entities u es ns) u L of
              Some dn \<Rightarrow>
                map (relink (node_id dn) u (map name es)
                       (findMany (upsert_entities u es ns) u (map name es)))
                    (upsert_entities u es ns)
            | None \<Rightarrow>
                map (relink (fresh_id (upsert_entities u es ns)) u (map name es)
                       (findMany (upsert_entities u es ns) u (map name es)))
                    (upsert_entities u es ns)
                @ [created_doc_node u L (upsert_entities u es ns)
                     (findMany (upsert_entities u es ns) u (map name es))])"
proof -
  let ?ns1 = "upsert_entities u es ns"
  let ?names = "map name es"
  let ?nodes = "findMany ?ns1 u ?names"
  let ?doc = "created_doc_node u L ?ns1 ?nodes"
  have d1: "distinct (map node_id ?ns1)" by (rule upsert_entities_distinct[OF d])
  show ?thesis
  proof (cases "findFirst ?ns1 u L")
    case (Some dn)
    then show ?thesis
      by (simp add: mergeDocument_def Let_def link_nodes_relink[OF d1])
  next
    case None
    have id: "node_id ?doc = fresh_id ?ns1" by (simp add: created_doc_node_def)
    have d2: "distinct (map node_id (?ns1 @ [?doc]))"
      using d1 fresh_id_notin[of ?ns1] by (simp add: id)
    have sub: "set ?nodes \<subseteq> set (?ns1 @ [?doc])"
      using findMany_subset[of ?ns1 u ?names] by auto
    have notin: "?doc \<notin> set ?nodes"
    proof
      assume "?doc \<in> set ?nodes"
      then have "?doc \<in> set ?ns1" using findMany_subset by blast
      then have "node_id ?doc < fresh_id ?ns1" by (rule fresh_id_greater)
      with id show False by simp
    qed
    have "mergeDocument u L es ns = link_nodes (node_id ?doc) ?nodes ?nodes (?ns1 @ [?doc])"
      using None by (simp add: mergeDocument_def Let_def created_doc_node_def)
    also have "\<dots> = map (\<lambda>n. if n \<in> set ?nodes
                                then n\<lparr> connections := newConnections (node_id ?doc) ?nodes n \<rparr>
                                else n) (?ns1 @ [?doc])"
      by (rule link_nodes_members[OF d2 sub findMany_distinct[OF d1]])
    also have "\<dots> = map (\<lambda>n. if n \<in> set ?nodes
                                then n\<lparr> connections := newConnections (node_id ?doc) ?nodes n \<rparr>
                                else n) ?ns1 @ [?doc]"
      using notin by simp
    also have "map (\<lambda>n. if n \<in> set ?nodes
                                then n\<lparr> connections := newConnections (node_id ?doc) ?nodes n \<rparr>
                                else n) ?ns1
                 = map (relink (fresh_id ?ns1) u ?names ?nodes) ?ns1"
      by (rule map_cong) (simp_all add: id relink_def in_findMany)
    finally show ?thesis using None by simp
  qed
qed


lemma relink_fields [simp]:
  "node_id (relink d u names nodes n) = node_id n"
  "userId (relink d u names nodes n) = userId n"
  "label (relink d u names nodes n) = label n"
  "strength (relink d u names nodes n) = strength n"
  "ntype (relink d u names nodes n) = ntype n"
  by (simp_all add: relink_def)

lemma relink_outside:
  "\<not> (userId n = u \<and> label n \<in> set names) \<Longrightarrow> relink d u names nodes n = n"
  unfolding relink_def by (rule if_not_P)

lemma relink_inside:
  "userId n = u \<and> label n \<in> set names \<Longrightarrow>
   connections (relink d u names nodes n) = newConnections d nodes n"
  unfolding relink_def by simp

lemma findFirst_map_relink:
  "findFirst (map (relink d u names nodes) xs) v l = map_option (relink d u names nodes) (findFirst xs v l)"
  unfolding findFirst_def by (rule find_map_same) simp

lemma findMany_map_relink:
  "findMany (map (relink d u names nodes) xs) v ls = map (relink d u names nodes) (findMany xs v ls)"
  by (simp add: findMany_def filter_map comp_def)

text \<open>
  The shape of the table after a merge: the rows of the table after the entity loop,
  relinked, and after them the document node when it was created.
\<close>

lemma mergeDocument_form:
  assumes d: "distinct (map node_id ns)"
  shows "\<exists>docId extra.
           mergeDocument u L es ns
             = map (relink docId u (map name es) (findMany (upsert_entities u es ns) u (map name es)))
                   (upsert_entities u es ns) @ extra
         \<and> (\<forall>x\<in>set extra. userId x = u \<and> label x = L \<and> L \<notin> set (map name es)
                \<and> node_id x = docId \<and> node_id x \<notin> node_id ` set (upsert_entities u es ns)
                \<and> x = created_doc_node u L (upsert_entities u es ns)
                        (findMany (upsert_entities u es ns) u (map name es)))
         \<and> length extra \<le> 1
         \<and> (extra = [] \<longleftrightarrow> findFirst (upsert_entities u es ns) u L \<noteq> None)
         \<and> (\<forall>dn. findFirst (upsert_entities u es ns) u L = Some dn \<longrightarrow> docId = node_id dn)
         \<and> (\<exists>dn. findFirst (mergeDocument u L es ns) u L = Some dn \<and> node_id dn = docId)"
proof -
  let ?ns1 = "upsert_entities u es ns"
  let ?names = "map name es"
  let ?nodes = "findMany ?ns1 u ?names"
  let ?doc = "created_doc_node u L ?ns1 ?nodes"
  have d1: "distinct (map node_id ?ns1)" by (rule upsert_entities_distinct[OF d])
  note c = mergeDocument_closed[OF d, of u L es]
  show ?thesis
  proof (cases "findFirst ?ns1 u L")
    case (Some dn)
    have r: "mergeDocument u L es ns = map (relink (node_id dn) u ?names ?nodes) ?ns1 @ []"
      using c Some by simp
    have "findFirst (mergeDocument u L es ns) u L = Some (relink (node_id dn) u ?names ?nodes dn)"
      using r Some by (simp add: findFirst_map_relink)
    with r Some show ?thesis
      by (intro exI[of _ "node_id dn"] exI[of _ "[]"]) simp
  next
    case None
    have r: "mergeDocument u L es ns = map (relink (fresh_id ?ns1) u ?names ?nodes) ?ns1 @ [?doc]"
      using c None by simp
    have notname: "L \<notin> set ?names"
    proof
      assume "L \<in> set ?names"
      then obtain e where "e \<in> set es" "name e = L" by auto
      with upsert_entities_present[OF d this(1), of u] None show False by simp
    qed
    have f: "findFirst (mergeDocument u L es ns) u L = Some ?doc"
      using r None by (simp add: findFirst_append findFirst_map_relink)
        (simp add: findFirst_def created_doc_node_def)
    have p: "userId ?doc = u \<and> label ?doc = L \<and> node_id ?doc = fresh_id ?ns1"
      by (simp add: created_doc_node_def)
    from r f p notname None fresh_id_notin[of ?ns1] show ?thesis
      by (intro exI[of _ "fresh_id ?ns1"] exI[of _ "[?doc]"]) simp
  qed
qed


lemma mergeDocument_distinct:
  assumes d: "distinct (map node_id ns)"
  shows "distinct (map node_id (mergeDocument u L es ns))"
proof -
  let ?ns1 = "upsert_entities u es ns"
  from mergeDocument_form[OF d, of u L es] obtain docId extra where
    r: "mergeDocument u L es ns
          = map (relink docId u (map name es) (findMany ?ns1 u (map name es))) ?ns1 @ extra"
    and x: "\<forall>x\<in>set extra. node_id x \<notin> node_id ` set ?ns1" and l: "length extra \<le> 1"
    by blast
  have d1: "distinct (map node_id ?ns1)" by (rule upsert_entities_distinct[OF d])
  have de: "distinct (map node_id extra)" using l by (cases extra) auto
  have "map node_id (mergeDocument u L es ns) = map node_id ?ns1 @ map node_id extra"
    unfolding r by (simp add: comp_def)
  moreover have "set (map node_id ?ns1) \<inter> set (map node_id extra) = {}"
  proof -
    have "i \<notin> set (map node_id ?ns1)" if "i \<in> set (map node_id extra)" for i
    proof -
      from that obtain y where "y \<in> set extra" "i = node_id y" by auto
      with x show ?thesis by simp
    qed
    then show ?thesis by blast
  qed
  ultimately show ?thesis using d1 de by simp
qed

lemma mergeDocument_entity_nodes:
  assumes d: "distinct (map node_id ns)"
  shows "map node_id (findMany (mergeDocument u L es ns) u (map name es))
           = map node_id (findMany (upsert_entities u es ns) u (map name es))"
proof -
  let ?ns1 = "upsert_entities u es ns"
  from mergeDocument_form[OF d, of u L es] obtain docId extra where
    r: "mergeDocument u L es ns
          = map (relink docId u (map name es) (findMany ?ns1 u (map name es))) ?ns1 @ extra"
    and x: "\<forall>x\<in>set extra. label x = L \<and> L \<notin> set (map name es)"
    by blast
  have "findMany extra u (map name es) = []"
    using x by (auto simp: findMany_def filter_empty_conv)
  then show ?thesis
    unfolding r by (simp add: findMany_append findMany_map_relink comp_def)
qed

lemma mergeDocument_present:
  assumes d: "distinct (map node_id ns)" and e: "e \<in> set es"
  shows "findFirst (mergeDocument u L es ns) u (name e) \<noteq> None"
proof -
  let ?ns1 = "upsert_entities u es ns"
  from mergeDocument_form[OF d, of u L es] obtain docId extra where
    r: "mergeDocument u L es ns
          = map (relink docId u (map name es) (findMany ?ns1 u (map name es))) ?ns1 @ extra"
    by blast
  from upsert_entities_present[OF d e, of u] obtain x where "findFirst ?ns1 u (name e) = Some x"
    by auto
  then show ?thesis unfolding r by (simp add: findFirst_append findFirst_map_relink)
qed

lemma mergeDocument_repeat:
  assumes d: "distinct (map node_id ns)"
  shows "list_all2 same_edges (mergeDocument u L es ns)
           (mergeDocument u L es (mergeDocument u L es ns))"
proof -
  let ?names = "map name es"
  let ?ns1 = "upsert_entities u es ns"
  let ?nodes = "findMany ?ns1 u ?names"
  let ?r1 = "mergeDocument u L es ns"
  let ?ns1' = "upsert_entities u es ?r1"
  let ?nodes' = "findMany ?ns1' u ?names"
  from mergeDocument_form[OF d, of u L es] obtain docId extra where
    r1: "?r1 = map (relink docId u ?names ?nodes) ?ns1 @ extra"
    and x: "\<forall>x\<in>set extra. label x = L \<and> L \<notin> set ?names"
    and f1: "\<exists>dn. findFirst ?r1 u L = Some dn \<and> node_id dn = docId"
    by blast
  have dr: "distinct (map node_id ?r1)" by (rule mergeDocument_distinct[OF d])
  have k: "list_all2 (kept u ?names) ?r1 ?ns1'"
    by (rule upsert_entities_all_present[OF dr names_subset])
       (simp add: mergeDocument_present[OF d])
  from f1 obtain dn where dn: "findFirst ?r1 u L = Some dn" "node_id dn = docId" by blast
  from kept_findFirst_Some[OF k dn(1)] obtain dn' where
    dn': "findFirst ?ns1' u L = Some dn'" "kept u ?names dn dn'" by blast
  have id': "node_id dn' = docId" using kept_fields[OF dn'(2)] dn(2) by simp
  have r2: "mergeDocument u L es ?r1 = map (relink docId u ?names ?nodes') ?ns1'"
    using mergeDocument_closed[OF dr, of u L es] dn'(1) id' by simp
  have ids: "map node_id ?nodes' = map node_id ?nodes"
  proof -
    have "map node_id ?nodes' = map node_id (findMany ?r1 u ?names)"
      using kept_ids[OF kept_findMany[OF k, of u ?names]] by simp
    also have "\<dots> = map node_id ?nodes" by (rule mergeDocument_entity_nodes[OF d])
    finally show ?thesis .
  qed
  have "list_all2 (\<lambda>a b. same_edges a (relink docId u ?names ?nodes' b)) ?r1 ?ns1'"
  proof (rule list.rel_mono_strong[OF k])
    fix a b assume a: "a \<in> set ?r1" and kab: "kept u ?names a b"
    note f = kept_fields[OF kab]
    have "connections (relink docId u ?names ?nodes' b) = connections a"
    proof (cases "userId b = u \<and> label b \<in> set ?names")
      case False
      then show ?thesis using f by (simp add: relink_outside)
    next
      case True
      with f have Pa: "userId a = u \<and> label a \<in> set ?names" by simp
      have "a \<notin> set extra" using x Pa by auto
      with a r1 obtain n1 where n1: "n1 \<in> set ?ns1" "a = relink docId u ?names ?nodes n1"
        by auto
      with Pa have P1: "userId n1 = u \<and> label n1 \<in> set ?names" by simp
      have ca: "connections a
                  = array_from_set (connections n1 @ filter (\<lambda>i. i \<noteq> node_id n1) (map node_id ?nodes) @ [docId])"
        using n1(2) relink_inside[OF P1] by (simp add: newConnections_ids)
      have idb: "node_id b = node_id n1" using f n1(2) by simp
      have "connections (relink docId u ?names ?nodes' b)
              = array_from_set (connections b @ filter (\<lambda>i. i \<noteq> node_id b) (map node_id ?nodes') @ [docId])"
        using relink_inside[OF True] by (simp add: newConnections_ids)
      also have "\<dots> = array_from_set (connections a @ (filter (\<lambda>i. i \<noteq> node_id n1) (map node_id ?nodes) @ [docId]))"
        using f idb ids by simp
      also have "\<dots> = connections a"
        unfolding ca by (simp only: array_from_set_absorb append_assoc)
      finally show ?thesis .
    qed
    with f show "same_edges a (relink docId u ?names ?nodes' b)"
      by (simp add: same_edges_def)
  qed
  then show ?thesis unfolding r2 by (simp add: list_all2_map2)
qed


lemma entity_ids_findMany: "entity_ids ns u names = set (map node_id (findMany ns u names))"
  by (auto simp: entity_ids_def findMany_def)

lemma upsert_entities_stored:
  assumes d: "distinct (map node_id ns)" and n1: "n1 \<in> set (upsert_entities u es ns)"
  shows "set (connections n1) = stored_connections ns (node_id n1)"
proof -
  from upsert_entities_grows[OF d names_subset[of es], of u]
  obtain ns' extra where r: "upsert_entities u es ns = ns' @ extra"
    and k: "list_all2 (kept u (map name es)) ns ns'"
    and e: "\<forall>x\<in>set extra. connections x = [] \<and> node_id x \<notin> node_id ` set ns"
    by blast
  from n1 r consider "n1 \<in> set ns'" | "n1 \<in> set extra" by auto
  then show ?thesis
  proof cases
    case 1
    from list_all2_right_ex[OF k 1] obtain n0 where n0: "n0 \<in> set ns" "kept u (map name es) n0 n1"
      by blast
    note f = kept_fields[OF n0(2)]
    have "find (\<lambda>m. node_id m = node_id n0) ns = Some n0"
      using find_by_id[OF d subset_refl n0(1)] n0(1) by simp
    with f show ?thesis by (simp add: stored_connections_def)
  next
    case 2
    with e have c: "connections n1 = []" and i: "node_id n1 \<notin> node_id ` set ns" by auto
    have "find (\<lambda>m. node_id m = node_id n1) ns = None"
    proof -
      have "\<not> (\<exists>x. x \<in> set ns \<and> node_id x = node_id n1)"
      proof
        assume "\<exists>x. x \<in> set ns \<and> node_id x = node_id n1"
        then obtain x where "x \<in> set ns" "node_id x = node_id n1" by blast
        then have "node_id n1 \<in> node_id ` set ns" by (metis imageI)
        with i show False by simp
      qed
      then show ?thesis unfolding find_None_iff .
    qed
    with c show ?thesis by (simp add: stored_connections_def)
  qed
qed

lemma mergeDocument_connections:
  assumes d: "distinct (map node_id ns)"
  shows "\<exists>dn. findFirst (mergeDocument u L es ns) u L = Some dn
           \<and> (\<forall>n\<in>set (mergeDocument u L es ns).
                 userId n = u \<and> label n \<in> set (map name es) \<longrightarrow>
                   set (connections n)
                     = stored_connections ns (node_id n)
                       \<union> (entity_ids (mergeDocument u L es ns) u (map name es) - {node_id n})
                       \<union> {node_id dn}
                 \<and> distinct (connections n))"
proof -
  let ?names = "map name es"
  let ?ns1 = "upsert_entities u es ns"
  let ?nodes = "findMany ?ns1 u ?names"
  let ?r1 = "mergeDocument u L es ns"
  from mergeDocument_form[OF d, of u L es] obtain docId extra where
    r1: "?r1 = map (relink docId u ?names ?nodes) ?ns1 @ extra"
    and x: "\<forall>x\<in>set extra. label x = L \<and> L \<notin> set ?names"
    and f1: "\<exists>dn. findFirst ?r1 u L = Some dn \<and> node_id dn = docId"
    by blast
  from f1 obtain dn where dn: "findFirst ?r1 u L = Some dn" "node_id dn = docId" by blast
  have ids: "entity_ids ?r1 u ?names = set (map node_id ?nodes)"
    by (simp only: entity_ids_findMany mergeDocument_entity_nodes[OF d])
  have "\<forall>n\<in>set ?r1. userId n = u \<and> label n \<in> set ?names \<longrightarrow>
                   set (connections n)
                     = stored_connections ns (node_id n)
                       \<union> (entity_ids ?r1 u ?names - {node_id n}) \<union> {node_id dn}
                 \<and> distinct (connections n)"
  proof (intro ballI impI)
    fix n assume n: "n \<in> set ?r1" and P: "userId n = u \<and> label n \<in> set ?names"
    have "n \<notin> set extra" using x P by auto
    with n r1 obtain n1 where n1: "n1 \<in> set ?ns1" "n = relink docId u ?names ?nodes n1"
      by auto
    with P have P1: "userId n1 = u \<and> label n1 \<in> set ?names" by simp
    have c: "connections n
               = array_from_set (connections n1 @ filter (\<lambda>i. i \<noteq> node_id n1) (map node_id ?nodes) @ [docId])"
      using n1(2) relink_inside[OF P1] by (simp add: newConnections_ids)
    have idn: "node_id n = node_id n1" using n1(2) by simp
    have "set (connections n)
            = set (connections n1) \<union> (set (map node_id ?nodes) - {node_id n1}) \<union> {docId}"
      unfolding c by (auto simp: set_array_from_set)
    also have "set (connections n1) = stored_connections ns (node_id n1)"
      by (rule upsert_entities_stored[OF d n1(1)])
    finally have "set (connections n)
                    = stored_connections ns (node_id n)
                      \<union> (entity_ids ?r1 u ?names - {node_id n}) \<union> {node_id dn}"
      by (simp only: idn ids dn(2))
    moreover have "distinct (connections n)"
      unfolding c by (rule distinct_array_from_set)
    ultimately show "set (connections n)
                     = stored_connections ns (node_id n)
                       \<union> (entity_ids ?r1 u ?names - {node_id n}) \<union> {node_id dn}
                 \<and> distinct (connections n)" by blast
  qed
  with dn(1) show ?thesis by blast
qed


lemma kept_keys:
  "list_all2 (kept u names) a b \<Longrightarrow>
   map (\<lambda>n. (userId n, label n)) a = map (\<lambda>n. (userId n, label n)) b"
  by (induction rule: list_all2_induct) (auto dest: kept_fields)

lemma upsert_entity_keys:
  assumes d: "distinct (map node_id ns)" and k: "distinct (map (\<lambda>n. (userId n, label n)) ns)"
  shows "distinct (map (\<lambda>n. (userId n, label n)) (upsert_entity u e ns))"
proof (cases "findFirst ns u (name e)")
  case None
  then have "(u, name e) \<notin> set (map (\<lambda>n. (userId n, label n)) ns)"
    by (auto simp: findFirst_None_iff)
  with k show ?thesis by (simp add: upsert_entity_new[OF None])
next
  case (Some x)
  have "list_all2 (kept u [name e]) ns (upsert_entity u e ns)"
    by (rule upsert_entity_found[OF d Some]) simp
  from kept_keys[OF this] k show ?thesis by simp
qed

lemma upsert_entities_keys:
  assumes "distinct (map node_id ns)" "distinct (map (\<lambda>n. (userId n, label n)) ns)"
  shows "distinct (map (\<lambda>n. (userId n, label n)) (upsert_entities u es ns))"
  using assms
proof (induction es arbitrary: ns)
  case Nil
  then show ?case by simp
next
  case (Cons e es)
  have d1: "distinct (map node_id (upsert_entity u e ns))"
    using upsert_entities_distinct[OF Cons.prems(1), of u "[e]"] by simp
  from Cons.IH[OF d1 upsert_entity_keys[OF Cons.prems]] show ?case by simp
qed

lemma mergeDocument_keys:
  assumes d: "distinct (map node_id ns)" and k: "distinct (map (\<lambda>n. (userId n, label n)) ns)"
  shows "distinct (map (\<lambda>n. (userId n, label n)) (mergeDocument u L es ns))"
proof -
  let ?names = "map name es"
  let ?ns1 = "upsert_entities u es ns"
  let ?nodes = "findMany ?ns1 u ?names"
  from mergeDocument_form[OF d, of u L es] obtain docId extra where
    r1: "mergeDocument u L es ns = map (relink docId u ?names ?nodes) ?ns1 @ extra"
    and x: "\<forall>x\<in>set extra. userId x = u \<and> label x = L"
    and l: "length extra \<le> 1"
    and e: "extra = [] \<longleftrightarrow> findFirst ?ns1 u L \<noteq> None"
    by blast
  have k1: "distinct (map (\<lambda>n. (userId n, label n)) ?ns1)"
    by (rule upsert_entities_keys[OF d k])
  have m: "map (\<lambda>n. (userId n, label n)) (mergeDocument u L es ns)
             = map (\<lambda>n. (userId n, label n)) ?ns1 @ map (\<lambda>n. (userId n, label n)) extra"
    unfolding r1 by (simp add: comp_def)
  show ?thesis
  proof (cases extra)
    case Nil
    with m k1 show ?thesis by simp
  next
    case (Cons y ys)
    with l have ys: "ys = []" by simp
    from Cons e have "findFirst ?ns1 u L = None" by simp
    then have "(u, L) \<notin> set (map (\<lambda>n. (userId n, label n)) ?ns1)"
      by (auto simp: findFirst_None_iff)
    moreover from x Cons have "userId y = u \<and> label y = L" by simp
    ultimately show ?thesis using m k1 Cons ys by simp
  qed
qed

lemma mergeDocument_repeat_strength:
  assumes d: "distinct (map node_id ns)" and e: "e \<in> set es"
    and f: "findFirst (mergeDocument u L es ns) u (name e) = Some n1"
  shows "\<exists>n2. findFirst (mergeDocument u L es (mergeDocument u L es ns)) u (name e) = Some n2
              \<and> node_id n2 = node_id n1 \<and> strength n1 + 0.5 \<le> strength n2"
proof -
  let ?names = "map name es"
  let ?r1 = "mergeDocument u L es ns"
  let ?ns1' = "upsert_entities u es ?r1"
  have dr: "distinct (map node_id ?r1)" by (rule mergeDocument_distinct[OF d])
  from mergeDocument_form[OF dr, of u L es] obtain docId extra where
    r2: "mergeDocument u L es ?r1
           = map (relink docId u ?names (findMany ?ns1' u ?names)) ?ns1' @ extra"
    by blast
  from upsert_entities_strength[OF dr e f] obtain b where
    b: "findFirst ?ns1' u (name e) = Some b" "node_id b = node_id n1"
       "strength n1 + 0.5 \<le> strength b" by blast
  have "findFirst (mergeDocument u L es ?r1) u (name e)
          = Some (relink docId u ?names (findMany ?ns1' u ?names) b)"
    unfolding r2 using b(1) by (simp add: findFirst_append findFirst_map_relink)
  with b show ?thesis by simp
qed


lemma same_edges_maps:
  "list_all2 same_edges a b \<Longrightarrow>
     map connections b = map connections a \<and> map node_id b = map node_id a
     \<and> map (\<lambda>n. (userId n, label n)) b = map (\<lambda>n. (userId n, label n)) a"
  by (induction rule: list_all2_induct) (simp_all add: same_edges_def)

text \<open>
  Claim C4: in a table whose ids are distinct, after \<open>mergeDocument\<close> the document
  node exists, and the connections of each entity node of the call (a node of the owner
  labelled with one of the entity names) are, as a set, the connections stored for it
  before the call, the ids of the other entity nodes and the id of the document node,
  held without duplicates. Running \<open>mergeDocument\<close> again with the same input changes no
  connection list, creates no node and relabels none, so a table with one node for each
  owner and label keeps that property through both runs; and it is not idempotent on
  strength: the node of every entity is at least 0.5 stronger after the second run.
\<close>

theorem mergeDocument_idempotence:
  assumes "distinct (map node_id ns)"
  shows "(\<exists>dn. findFirst (mergeDocument u L es ns) u L = Some dn
            \<and> (\<forall>n\<in>set (mergeDocument u L es ns).
                  userId n = u \<and> label n \<in> set (map name es) \<longrightarrow>
                    set (connections n)
                      = stored_connections ns (node_id n)
                        \<union> (entity_ids (mergeDocument u L es ns) u (map name es) - {node_id n})
                        \<union> {node_id dn}
                  \<and> distinct (connections n)))
       \<and> map connections (mergeDocument u L es (mergeDocument u L es ns))
           = map connections (mergeDocument u L es ns)
       \<and> map node_id (mergeDocument u L es (mergeDocument u L es ns))
           = map node_id (mergeDocument u L es ns)
       \<and> map (\<lambda>n. (userId n, label n)) (mergeDocument u L es (mergeDocument u L es ns))
           = map (\<lambda>n. (userId n, label n)) (mergeDocument u L es ns)
       \<and> (distinct (map (\<lambda>n. (userId n, label n)) ns) \<longrightarrow>
            distinct (map (\<lambda>n. (userId n, label n)) (mergeDocument u L es ns))
            \<and> distinct (map (\<lambda>n. (userId n, label n))
                          (mergeDocument u L es (mergeDocument u L es ns))))
       \<and> (\<forall>e\<in>set es. \<exists>n1 n2.
              findFirst (mergeDocument u L es ns) u (name e) = Some n1
            \<and> findFirst (mergeDocument u L es (mergeDocument u L es ns)) u (name e) = Some n2
            \<and> node_id n2 = node_id n1 \<and> strength n1 + 0.5 \<le> strength n2)"
proof -
  let ?r1 = "mergeDocument u L es ns"
  let ?r2 = "mergeDocument u L es ?r1"
  let ?key = "\<lambda>n::knowledge_node. (userId n, label n)"
  note d = assms
  note m = same_edges_maps[OF mergeDocument_repeat[OF d, of u L es]]
  have a: "\<exists>dn. findFirst ?r1 u L = Some dn
            \<and> (\<forall>n\<in>set ?r1.
                  userId n = u \<and> label n \<in> set (map name es) \<longrightarrow>
                    set (connections n)
                      = stored_connections ns (node_id n)
                        \<union> (entity_ids ?r1 u (map name es) - {node_id n}) \<union> {node_id dn}
                  \<and> distinct (connections n))"
    by (rule mergeDocument_connections[OF d])
  have k: "distinct (map ?key ns) \<longrightarrow> distinct (map ?key ?r1) \<and> distinct (map ?key ?r2)"
  proof
    assume "distinct (map ?key ns)"
    then have "distinct (map ?key ?r1)" by (rule mergeDocument_keys[OF d])
    with m show "distinct (map ?key ?r1) \<and> distinct (map ?key ?r2)" by simp
  qed
  have s: "\<forall>e\<in>set es. \<exists>n1 n2.
              findFirst ?r1 u (name e) = Some n1 \<and> findFirst ?r2 u (name e) = Some n2
            \<and> node_id n2 = node_id n1 \<and> strength n1 + 0.5 \<le> strength n2"
  proof
    fix e assume e: "e \<in> set es"
    from mergeDocument_present[OF d e, of u L] obtain n1 where
      n1: "findFirst ?r1 u (name e) = Some n1" by auto
    from mergeDocument_repeat_strength[OF d e n1] n1
    show "\<exists>n1 n2. findFirst ?r1 u (name e) = Some n1 \<and> findFirst ?r2 u (name e) = Some n2
            \<and> node_id n2 = node_id n1 \<and> strength n1 + 0.5 \<le> strength n2" by blast
  qed
  from a m k s show ?thesis by blast
qed

lemma merge_aba_once:
  "mergeDocument (lit ''u1'') (lit ''Doc'') entities_aba []
     = [\<lparr> node_id = 1, userId = lit ''u1'', label = lit ''A'', ntype = lit ''concept'',
           description = lit ''Extracted from document'', strength = 1.5, connections = [2, 3] \<rparr>,
        \<lparr> node_id = 2, userId = lit ''u1'', label = lit ''B'', ntype = lit ''idea'',
           description = lit ''Extracted from document'', strength = 1, connections = [1, 3] \<rparr>,
        \<lparr> node_id = 3, userId = lit ''u1'', label = lit ''Doc'', ntype = lit ''document'',
           description = lit ''Source document'', strength = 2, connections = [1, 2] \<rparr>]"
  by (simp add: mergeDocument_def entities_aba_def upsert_entity_def findFirst_def findMany_def
      fresh_id_def update_node_def type_name_def newConnections_def array_from_set_def lit_def Let_def)

lemma merge_aba_twice:
  "mergeDocument (lit ''u1'') (lit ''Doc'') entities_aba
     (mergeDocument (lit ''u1'') (lit ''Doc'') entities_aba [])
     = [\<lparr> node_id = 1, userId = lit ''u1'', label = lit ''A'', ntype = lit ''concept'',
           description = lit ''Extracted from document'', strength = 2.5, connections = [2, 3] \<rparr>,
        \<lparr> node_id = 2, userId = lit ''u1'', label = lit ''B'', ntype = lit ''idea'',
           description = lit ''Extracted from document'', strength = 1.5, connections = [1, 3] \<rparr>,
        \<lparr> node_id = 3, userId = lit ''u1'', label = lit ''Doc'', ntype = lit ''document'',
           description = lit ''Source document'', strength = 2, connections = [1, 2] \<rparr>]"
  unfolding merge_aba_once
  by (simp add: mergeDocument_def entities_aba_def upsert_entity_def findFirst_def findMany_def
      fresh_id_def update_node_def type_name_def newConnections_def array_from_set_def lit_def Let_def)

theorem mergeDocument_idempotence_witness:
  "distinct (map node_id ([] :: knowledge_node list))
   \<and> map connections (mergeDocument (lit ''u1'') (lit ''Doc'') entities_aba [])
       = [[2, 3], [1, 3], [1, 2]]
   \<and> map connections (mergeDocument (lit ''u1'') (lit ''Doc'') entities_aba
         (mergeDocument (lit ''u1'') (lit ''Doc'') entities_aba []))
       = [[2, 3], [1, 3], [1, 2]]
   \<and> map strength (mergeDocument (lit ''u1'') (lit ''Doc'') entities_aba [])
       = [1.5, 1, 2]
   \<and> map strength (mergeDocument (lit ''u1'') (lit ''Doc'') entities_aba
         (mergeDocument (lit ''u1'') (lit ''Doc'') entities_aba []))
       = [2.5, 1.5, 2]"
proof -
  have d: "distinct (map node_id ([] :: knowledge_node list))" by simp
  note t = mergeDocument_idempotence [OF d, of "lit ''u1''" "lit ''Doc''" entities_aba]
  from t have c: "map connections (mergeDocument (lit ''u1'') (lit ''Doc'') entities_aba
         (mergeDocument (lit ''u1'') (lit ''Doc'') entities_aba []))
       = map connections (mergeDocument (lit ''u1'') (lit ''Doc'') entities_aba [])"
    by blast
  have c1: "map connections (mergeDocument (lit ''u1'') (lit ''Doc'') entities_aba [])
       = [[2, 3], [1, 3], [1, 2]]"
    by (simp add: merge_aba_once)
  have s1: "map strength (mergeDocument (lit ''u1'') (lit ''Doc'') entities_aba []) = [1.5, 1, 2]"
    by (simp add: merge_aba_once)
  have s2: "map strength (mergeDocument (lit ''u1'') (lit ''Doc'') entities_aba
         (mergeDocument (lit ''u1'') (lit ''Doc'') entities_aba [])) = [2.5, 1.5, 2]"
    by (simp add: merge_aba_twice)
  from d c c1 s1 s2 show ?thesis by simp
qed

subsection \<open>The document node\<close>

lemma upsert_entities_outside:
  assumes d: "distinct (map node_id ns)" and L: "L \<notin> set (map name es)"
  shows "findFirst (upsert_entities u es ns) u L = findFirst ns u L"
proof -
  from upsert_entities_grows[OF d names_subset[of es], of u]
  obtain ns' extra where r: "upsert_entities u es ns = ns' @ extra"
    and k: "list_all2 (kept u (map name es)) ns ns'"
    and e: "\<forall>x\<in>set extra. label x \<in> set (map name es)"
    by blast
  have ex: "findFirst extra u L = None"
    using e L by (auto simp: findFirst_None_iff)
  show ?thesis
  proof (cases "findFirst ns u L")
    case None
    with kept_findFirst_None[OF k, of u L] have "findFirst ns' u L = None" by simp
    with ex None show ?thesis by (simp add: r findFirst_append)
  next
    case (Some dn)
    from kept_findFirst_Some[OF k Some] obtain y where
      y: "findFirst ns' u L = Some y" "kept u (map name es) dn y" by blast
    from findFirst_Some[OF Some] L have "\<not> (userId dn = u \<and> label dn \<in> set (map name es))"
      by auto
    with y(2) have "dn = y" by (rule kept_outside)
    with y(1) Some show ?thesis by (simp add: r findFirst_append)
  qed
qed

text \<open>
  Claim C9, amended: in a table whose ids are distinct, when the label of the document
  node is not one of the entity names of the call, a node found under that label is left
  as it was, connections included, and no document node is created; when none is found,
  the document node is created with type \<open>document\<close>, strength 2 and the ids of the
  entity nodes of the call as connections. In every case each entity node of the call
  holds the id of the document node among its connections after the call.
\<close>

theorem mergeDocument_document_node:
  assumes "distinct (map node_id ns)" and "L \<notin> set (map name es)"
  shows "(\<forall>dn. findFirst ns u L = Some dn \<longrightarrow>
            findFirst (mergeDocument u L es ns) u L = Some dn
          \<and> length (mergeDocument u L es ns) = length (upsert_entities u es ns))
       \<and> (findFirst ns u L = None \<longrightarrow>
            findFirst (mergeDocument u L es ns) u L
              = Some \<lparr> node_id = fresh_id (upsert_entities u es ns), userId = u, label = L,
                       ntype = lit ''document'', description = lit ''Source document'',
                       strength = 2,
                       connections = map node_id (findMany (mergeDocument u L es ns) u (map name es)) \<rparr>)
       \<and> (\<forall>dn. findFirst (mergeDocument u L es ns) u L = Some dn \<longrightarrow>
            (\<forall>n\<in>set (mergeDocument u L es ns).
               userId n = u \<and> label n \<in> set (map name es) \<longrightarrow> node_id dn \<in> set (connections n)))"
proof -
  let ?names = "map name es"
  let ?ns1 = "upsert_entities u es ns"
  let ?nodes = "findMany ?ns1 u ?names"
  let ?r1 = "mergeDocument u L es ns"
  note d = assms(1)
  note o = upsert_entities_outside[OF assms, of u]
  note c = mergeDocument_closed[OF d, of u L es]
  have a: "\<forall>dn. findFirst ns u L = Some dn \<longrightarrow>
            findFirst ?r1 u L = Some dn \<and> length ?r1 = length ?ns1"
  proof (intro allI impI)
    fix dn assume f: "findFirst ns u L = Some dn"
    with o have f1: "findFirst ?ns1 u L = Some dn" by simp
    then have r: "?r1 = map (relink (node_id dn) u ?names ?nodes) ?ns1" using c by simp
    from findFirst_Some[OF f] assms(2)
    have "\<not> (userId dn = u \<and> label dn \<in> set ?names)" by auto
    then have "relink (node_id dn) u ?names ?nodes dn = dn" by (rule relink_outside)
    with f1 show "findFirst ?r1 u L = Some dn \<and> length ?r1 = length ?ns1"
      unfolding r by (simp add: findFirst_map_relink)
  qed
  have b: "findFirst ns u L = None \<longrightarrow>
            findFirst ?r1 u L
              = Some \<lparr> node_id = fresh_id ?ns1, userId = u, label = L,
                       ntype = lit ''document'', description = lit ''Source document'',
                       strength = 2,
                       connections = map node_id (findMany ?r1 u ?names) \<rparr>"
  proof
    assume "findFirst ns u L = None"
    with o have f1: "findFirst ?ns1 u L = None" by simp
    then have r: "?r1 = map (relink (fresh_id ?ns1) u ?names ?nodes) ?ns1
                          @ [created_doc_node u L ?ns1 ?nodes]" using c by simp
    have "findFirst ?r1 u L = Some (created_doc_node u L ?ns1 ?nodes)"
      unfolding r using f1 by (simp add: findFirst_append findFirst_map_relink)
        (simp add: findFirst_def created_doc_node_def)
    then show "findFirst ?r1 u L
              = Some \<lparr> node_id = fresh_id ?ns1, userId = u, label = L,
                       ntype = lit ''document'', description = lit ''Source document'',
                       strength = 2,
                       connections = map node_id (findMany ?r1 u ?names) \<rparr>"
      by (simp add: created_doc_node_def mergeDocument_entity_nodes[OF d])
  qed
  have e: "\<forall>dn. findFirst ?r1 u L = Some dn \<longrightarrow>
            (\<forall>n\<in>set ?r1. userId n = u \<and> label n \<in> set ?names \<longrightarrow> node_id dn \<in> set (connections n))"
  proof (intro allI impI ballI)
    fix dn n assume f: "findFirst ?r1 u L = Some dn" and n: "n \<in> set ?r1"
      and P: "userId n = u \<and> label n \<in> set ?names"
    from mergeDocument_connections[OF d, of u L es] f n P
    have "set (connections n)
            = stored_connections ns (node_id n)
              \<union> (entity_ids ?r1 u ?names - {node_id n}) \<union> {node_id dn}" by auto
    then show "node_id dn \<in> set (connections n)" by blast
  qed
  from a b e show ?thesis by blast
qed

lemma store_react_eq:
  "store_react
     = [\<lparr> node_id = 1, userId = lit ''u1'', label = lit ''Hooks'', ntype = lit ''entity'',
           description = lit ''Extracted from document'', strength = 1, connections = [2] \<rparr>,
        \<lparr> node_id = 2, userId = lit ''u1'', label = lit ''React'', ntype = lit ''document'',
           description = lit ''Source document'', strength = 2, connections = [1] \<rparr>]"
  by (simp add: store_react_def mergeDocument_def upsert_entity_def findFirst_def findMany_def
      fresh_id_def update_node_def type_name_def newConnections_def array_from_set_def lit_def Let_def)

text \<open>
  Claim C9, as stated, fails when the title of the document is also the name of one of
  its entities. After a first document titled React the document node has the
  connections \<open>[1]\<close>. A later document with the same title and the entity React finds
  that node twice, as the entity's node and as the document node: its strength grows and
  the loop over \<open>nodes\<close> rewrites its connections to \<open>[1, 2]\<close>.
\<close>

theorem mergeDocument_document_node_counterexample:
  "findFirst store_react (lit ''u1'') (lit ''React'')
     = Some \<lparr> node_id = 2, userId = lit ''u1'', label = lit ''React'', ntype = lit ''document'',
              description = lit ''Source document'', strength = 2, connections = [1] \<rparr>
   \<and> findFirst (mergeDocument (lit ''u1'') (lit ''React'')
                  [\<lparr> name = lit ''React'', etype = Concept \<rparr>] store_react)
        (lit ''u1'') (lit ''React'')
     = Some \<lparr> node_id = 2, userId = lit ''u1'', label = lit ''React'', ntype = lit ''document'',
              description = lit ''Source document'', strength = 2.5, connections = [1, 2] \<rparr>"
  unfolding store_react_eq
  by (simp add: mergeDocument_def upsert_entity_def findFirst_def findMany_def
      fresh_id_def update_node_def type_name_def newConnections_def array_from_set_def lit_def Let_def)

theorem mergeDocument_document_node_witness:
  "distinct (map node_id store_react)
   \<and> lit ''React'' \<notin> set (map name [\<lparr> name = lit ''Redux'', etype = Concept \<rparr>])
   \<and> findFirst (mergeDocument (lit ''u1'') (lit ''React'')
                  [\<lparr> name = lit ''Redux'', etype = Concept \<rparr>] store_react)
        (lit ''u1'') (lit ''React'')
     = Some \<lparr> node_id = 2, userId = lit ''u1'', label = lit ''React'', ntype = lit ''document'',
              description = lit ''Source document'', strength = 2, connections = [1] \<rparr>
   \<and> map connections (findMany (mergeDocument (lit ''u1'') (lit ''React'')
                  [\<lparr> name = lit ''Redux'', etype = Concept \<rparr>] store_react)
        (lit ''u1'') [lit ''Redux'']) = [[2]]"
proof -
  have d: "distinct (map node_id store_react)" by (simp add: store_react_eq)
  have l: "lit ''React'' \<notin> set (map name [\<lparr> name = lit ''Redux'', etype = Concept \<rparr>])"
    by (simp add: lit_def)
  have f: "findFirst store_react (lit ''u1'') (lit ''React'')
     = Some \<lparr> node_id = 2, userId = lit ''u1'', label = lit ''React'', ntype = lit ''document'',
              description = lit ''Source document'', strength = 2, connections = [1] \<rparr>"
    unfolding store_react_eq by (simp add: findFirst_def lit_def)
  from mergeDocument_document_node [OF d l, of "lit ''u1''"] f
  have a: "findFirst (mergeDocument (lit ''u1'') (lit ''React'')
                  [\<lparr> name = lit ''Redux'', etype = Concept \<rparr>] store_react)
        (lit ''u1'') (lit ''React'')
     = Some \<lparr> node_id = 2, userId = lit ''u1'', label = lit ''React'', ntype = lit ''document'',
              description = lit ''Source document'', strength = 2, connections = [1] \<rparr>"
    by blast
  have b: "map connections (findMany (mergeDocument (lit ''u1'') (lit ''React'')
                  [\<lparr> name = lit ''Redux'', etype = Concept \<rparr>] store_react)
        (lit ''u1'') [lit ''Redux'']) = [[2]]"
    unfolding store_react_eq
    by (simp add: mergeDocument_def upsert_entity_def findFirst_def findMany_def
      fresh_id_def update_node_def type_name_def newConnections_def array_from_set_def lit_def Let_def)
  from d l a b show ?thesis by blast
qed

section \<open>Document ingestion\<close>

text \<open>
  A row of the \<open>document\<close> table. The fields the enrichment writes are \<open>null\<close> until it
  has run; \<open>entities\<close>, \<open>keyPoints\<close>, \<open>tags\<close> and \<open>embedding\<close> hold JSON text, modelled
  as the values it encodes.
\<close>

record document =
  d_id :: jstring
  d_userId :: jstring
  d_title :: jstring
  d_content :: jstring
  d_contentType :: jstring
  d_domain :: jstring
  d_fileUrl :: "jstring option"
  d_fileType :: "jstring option"
  d_fileSize :: "nat option"
  d_summary :: "json option"
  d_entities :: "jstring list option"
  d_keyPoints :: "json list option"
  d_tags :: "jstring list option"
  d_embedding :: "real list option"

record database =
  db_documents :: "document list"
  db_nodes :: "knowledge_node list"

text \<open>
  What the enrichment of one document reads from outside: the credential, the network as
  each of the three concurrent extractions meets it, and the built-in \<open>JSON.parse\<close> and
  \<open>toLowerCase\<close>.
\<close>

record ai_env =
  env_key :: "jstring option"
  env_net_summary :: network
  env_net_entities :: network
  env_net_keypoints :: network
  env_parse :: parser
  env_lower :: "jstring \<Rightarrow> jstring"

text \<open>\<open>doc?.title || `Document ${docId.slice(0, 8)}`\<close>\<close>

definition docNodeLabel_of :: "document option \<Rightarrow> jstring \<Rightarrow> jstring" where
  "docNodeLabel_of doc docId =
     (case doc of
        None \<Rightarrow> lit ''Document '' @ take 8 docId
      | Some d \<Rightarrow> if d_title d \<noteq> [] then d_title d else lit ''Document '' @ take 8 docId)"

text \<open>
  \<open>processDocumentWithAI\<close>, with the database always reachable. \<open>Promise.all\<close> rejects
  as soon as one of the three promises rejects; only \<open>generateSummary\<close> can, the other
  two catch everything. A rejection, and an update of a document that does not exist,
  land in the \<open>catch\<close>, which logs and leaves the database as it is.
\<close>

definition processDocumentWithAI ::
  "ai_env \<Rightarrow> database \<Rightarrow> jstring \<Rightarrow> jstring \<Rightarrow> jstring \<Rightarrow> database" where
  "processDocumentWithAI env db docId content' uid =
     (case snd (generateSummary (env_key env) (env_net_summary env) content') of
        Inl e \<Rightarrow> db
      | Inr summary \<Rightarrow>
          (let typedEntities =
                 snd (extractEntitiesWithTypes (env_key env) (env_net_entities env) (env_parse env) content');
               keyPoints =
                 snd (extractKeyPoints (env_key env) (env_net_keypoints env) (env_parse env) content');
               entityNames = map name typedEntities;
               embedding = generateEmbeddingSimple (env_lower env) content'
           in case find (\<lambda>d. d_id d = docId) (db_documents db) of
                None \<Rightarrow> db
              | Some found \<Rightarrow>
                  (let docs = map (\<lambda>d. if d_id d = docId
                                        then d\<lparr> d_summary := Some summary,
                                                d_entities := Some entityNames,
                                                d_keyPoints := Some keyPoints,
                                                d_tags := Some (take 5 entityNames),
                                                d_embedding := Some embedding \<rparr>
                                        else d) (db_documents db);
                       doc = find (\<lambda>d. d_id d = docId) docs;
                       docNodeLabel = docNodeLabel_of doc docId
                   in db\<lparr> db_documents := docs,
                          db_nodes := mergeDocument uid docNodeLabel typedEntities (db_nodes db) \<rparr>)))"








text \<open>A document, a database and two environments, for evaluating the ingestion.\<close>

definition doc_notes :: document where
  "doc_notes =
     \<lparr> d_id = lit ''d1'', d_userId = lit ''u1'', d_title = lit ''Notes'',
       d_content = lit ''React and Go are used together'', d_contentType = lit ''text'',
       d_domain = lit ''general'', d_fileUrl = None, d_fileType = None, d_fileSize = None,
       d_summary = None, d_entities = None, d_keyPoints = None, d_tags = None,
       d_embedding = None \<rparr>"

definition db_notes :: database where
  "db_notes = \<lparr> db_documents = [doc_notes], db_nodes = [] \<rparr>"

definition env_summary_fails :: ai_env where
  "env_summary_fails =
     \<lparr> env_key = Some (lit ''k''),
       env_net_summary = (\<lambda>i body. status_response 500),
       env_net_entities = net_answers fenced_entities,
       env_net_keypoints = net_answers (lit ''[1, {}]''),
       env_parse = parse_entities,
       env_lower = ascii_lower \<rparr>"

definition env_summary_ok :: ai_env where
  "env_summary_ok = env_summary_fails\<lparr> env_net_summary := net_answers (lit ''Two tools.'') \<rparr>"



subsection \<open>The enrichment and its condition\<close>

lemma find_map_update:
  assumes "find (\<lambda>d. d_id d = i) docs = Some found" and "\<And>d. d_id (g d) = d_id d"
  shows "find (\<lambda>d. d_id d = i) (map (\<lambda>d. if d_id d = i then g d else d) docs) = Some (g found)"
  using assms(1)
proof (induction docs)
  case Nil
  then show ?case by simp
next
  case (Cons a docs)
  then show ?case by (cases "d_id a = i") (simp_all add: assms(2))
qed

lemma summary_fails_fixture:
  "snd (generateSummary (Some (lit ''k'')) (\<lambda>i body. status_response 500) c) = Inl (ApiError 500)"
  by (simp add: generateSummary_def nvidiaChat_def key_missing_def lit_def modelsToTry_def
      summary_request_def MODELS_def attempt_def status_response_def)

lemma summary_ok_fixture:
  "snd (generateSummary (Some (lit ''k'')) (net_answers (lit ''Two tools.'')) c)
     = Inr (JStr (lit ''Two tools.''))"
  by (simp add: generateSummary_def nvidiaChat_def key_missing_def modelsToTry_def
      summary_request_def MODELS_def attempt_def net_answers_def ok_response_def
      completion_def completion_content_def lit_def)

lemma entities_fixture:
  "snd (extractEntitiesWithTypes (Some (lit ''k'')) (net_answers fenced_entities) parse_entities c)
     = [\<lparr> name = lit ''React'', etype = Idea \<rparr>, \<lparr> name = lit ''Go'', etype = Entity \<rparr>]"
proof -
  have r: "snd (nvidiaChat (Some (lit ''k'')) (net_answers fenced_entities) (entity_request c))
      = Inr (JStr fenced_entities)"
    by (simp add: nvidiaChat_def key_missing_def modelsToTry_def MODELS_def entity_request_def
        net_answers_def ok_response_def completion_def attempt_def completion_content_def
        fenced_entities_def lit_def)
  have p: "parse_entities (clean_response fenced_entities)
     = Some (JArr [JObj [(lit ''name'', JStr (lit ''React'')), (lit ''type'', JStr (lit ''idea''))],
                       JObj [(lit ''name'', JStr [])],
                       JNum 7,
                       JObj [(lit ''name'', JStr (lit ''Go'')), (lit ''type'', JStr (lit ''tool''))]])"
    by (simp add: clean_fenced parse_entities_def)
  have e: "entities_of_response parse_entities (JStr fenced_entities)
     = Inr [\<lparr> name = lit ''React'', etype = Idea \<rparr>, \<lparr> name = lit ''Go'', etype = Entity \<rparr>]"
    by (simp add: entities_of_response_def p valid_entity_def to_typed_entity_def
        entity_type_of_def lit_def)
  obtain calls where "nvidiaChat (Some (lit ''k'')) (net_answers fenced_entities) (entity_request c)
      = (calls, Inr (JStr fenced_entities))"
    using r by (cases "nvidiaChat (Some (lit ''k'')) (net_answers fenced_entities) (entity_request c)") simp
  then show ?thesis by (simp add: extractEntitiesWithTypes_def e)
qed

text \<open>
  Claim C3, as stated, fails: the entity extraction yields two entities, the summary
  operation fails (every model answers 500), and \<open>processDocumentWithAI\<close> leaves the
  database as it was: the graph, empty before, is still empty, where a merge of the two
  entities would have put three nodes in it.
\<close>

theorem processDocumentWithAI_summary_counterexample:
  "snd (extractEntitiesWithTypes (env_key env_summary_fails) (env_net_entities env_summary_fails)
          (env_parse env_summary_fails) (d_content doc_notes))
     = [\<lparr> name = lit ''React'', etype = Idea \<rparr>, \<lparr> name = lit ''Go'', etype = Entity \<rparr>]
   \<and> snd (generateSummary (env_key env_summary_fails) (env_net_summary env_summary_fails)
            (d_content doc_notes)) = Inl (ApiError 500)
   \<and> processDocumentWithAI env_summary_fails db_notes (lit ''d1'') (d_content doc_notes) (lit ''u1'')
       = db_notes
   \<and> db_nodes db_notes = []
   \<and> length (mergeDocument (lit ''u1'') (lit ''Notes'')
         [\<lparr> name = lit ''React'', etype = Idea \<rparr>, \<lparr> name = lit ''Go'', etype = Entity \<rparr>] []) = 3"
proof -
  have a: "snd (extractEntitiesWithTypes (env_key env_summary_fails) (env_net_entities env_summary_fails)
          (env_parse env_summary_fails) (d_content doc_notes))
     = [\<lparr> name = lit ''React'', etype = Idea \<rparr>, \<lparr> name = lit ''Go'', etype = Entity \<rparr>]"
    by (simp add: env_summary_fails_def entities_fixture)
  have b: "snd (generateSummary (env_key env_summary_fails) (env_net_summary env_summary_fails)
            (d_content doc_notes)) = Inl (ApiError 500)"
    by (simp add: env_summary_fails_def summary_fails_fixture)
  have c: "processDocumentWithAI env_summary_fails db_notes (lit ''d1'') (d_content doc_notes) (lit ''u1'')
       = db_notes"
    by (simp add: processDocumentWithAI_def b)
  have d: "db_nodes db_notes = []" by (simp add: db_notes_def)
  have e: "length (mergeDocument (lit ''u1'') (lit ''Notes'')
         [\<lparr> name = lit ''React'', etype = Idea \<rparr>, \<lparr> name = lit ''Go'', etype = Entity \<rparr>] []) = 3"
    by (simp add: mergeDocument_def upsert_entity_def findFirst_def findMany_def
      fresh_id_def update_node_def type_name_def newConnections_def array_from_set_def lit_def Let_def)
  from a b c d e show ?thesis by blast
qed

text \<open>
  Claim C3, amended: the graph merge waits for all three extractions. When the summary
  operation fails, nothing is written, neither the fields of the document nor the graph,
  whatever the entity extraction yielded. When it succeeds and the document exists, the
  document gets the summary, the entity names, the key points, the tags and the
  embedding, and the graph is merged with the typed entities under the document's title.
\<close>

theorem processDocumentWithAI_summary_gate:
  "(\<forall>e. snd (generateSummary (env_key env) (env_net_summary env) c) = Inl e \<longrightarrow>
        processDocumentWithAI env db docId c uid = db)
   \<and> (\<forall>summary found.
        snd (generateSummary (env_key env) (env_net_summary env) c) = Inr summary
        \<and> find (\<lambda>d. d_id d = docId) (db_documents db) = Some found \<longrightarrow>
          db_nodes (processDocumentWithAI env db docId c uid)
            = mergeDocument uid (docNodeLabel_of (Some found) docId)
                (snd (extractEntitiesWithTypes (env_key env) (env_net_entities env) (env_parse env) c))
                (db_nodes db)
        \<and> find (\<lambda>d. d_id d = docId) (db_documents (processDocumentWithAI env db docId c uid))
            = Some (found\<lparr>
                d_summary := Some summary,
                d_entities := Some (map name (snd (extractEntitiesWithTypes (env_key env)
                                      (env_net_entities env) (env_parse env) c))),
                d_keyPoints := Some (snd (extractKeyPoints (env_key env) (env_net_keypoints env)
                                      (env_parse env) c)),
                d_tags := Some (take 5 (map name (snd (extractEntitiesWithTypes (env_key env)
                                      (env_net_entities env) (env_parse env) c)))),
                d_embedding := Some (generateEmbeddingSimple (env_lower env) c) \<rparr>))"
proof -
  let ?typed = "snd (extractEntitiesWithTypes (env_key env) (env_net_entities env) (env_parse env) c)"
  let ?points = "snd (extractKeyPoints (env_key env) (env_net_keypoints env) (env_parse env) c)"
  have a: "\<forall>e. snd (generateSummary (env_key env) (env_net_summary env) c) = Inl e \<longrightarrow>
        processDocumentWithAI env db docId c uid = db"
    by (simp add: processDocumentWithAI_def)
  have b: "db_nodes (processDocumentWithAI env db docId c uid)
            = mergeDocument uid (docNodeLabel_of (Some found) docId) ?typed (db_nodes db)
        \<and> find (\<lambda>d. d_id d = docId) (db_documents (processDocumentWithAI env db docId c uid))
            = Some (found\<lparr> d_summary := Some summary, d_entities := Some (map name ?typed),
                d_keyPoints := Some ?points, d_tags := Some (take 5 (map name ?typed)),
                d_embedding := Some (generateEmbeddingSimple (env_lower env) c) \<rparr>)"
    if s: "snd (generateSummary (env_key env) (env_net_summary env) c) = Inr summary"
      and f: "find (\<lambda>d. d_id d = docId) (db_documents db) = Some found" for summary found
  proof -
    let ?g = "\<lambda>d. d\<lparr> d_summary := Some summary, d_entities := Some (map name ?typed),
                d_keyPoints := Some ?points, d_tags := Some (take 5 (map name ?typed)),
                d_embedding := Some (generateEmbeddingSimple (env_lower env) c) \<rparr>"
    let ?docs = "map (\<lambda>d. if d_id d = docId then ?g d else d) (db_documents db)"
    have fd: "find (\<lambda>d. d_id d = docId) ?docs = Some (?g found)"
      by (rule find_map_update[OF f]) simp
    have l: "docNodeLabel_of (Some (?g found)) docId = docNodeLabel_of (Some found) docId"
      by (simp add: docNodeLabel_of_def)
    have p: "processDocumentWithAI env db docId c uid
               = db\<lparr> db_documents := ?docs,
                      db_nodes := mergeDocument uid (docNodeLabel_of (Some found) docId) ?typed (db_nodes db) \<rparr>"
      using s f fd l by (simp add: processDocumentWithAI_def Let_def)
    show ?thesis unfolding p using fd by simp
  qed
  from a b show ?thesis by blast
qed

theorem processDocumentWithAI_summary_gate_witness:
  "processDocumentWithAI env_summary_fails db_notes (lit ''d1'') (d_content doc_notes) (lit ''u1'')
     = db_notes
   \<and> db_nodes (processDocumentWithAI env_summary_ok db_notes (lit ''d1'') (d_content doc_notes) (lit ''u1''))
     = mergeDocument (lit ''u1'') (lit ''Notes'')
         [\<lparr> name = lit ''React'', etype = Idea \<rparr>, \<lparr> name = lit ''Go'', etype = Entity \<rparr>] []"
proof -
  have f: "snd (generateSummary (env_key env_summary_fails) (env_net_summary env_summary_fails)
            (d_content doc_notes)) = Inl (ApiError 500)"
    by (simp add: env_summary_fails_def summary_fails_fixture)
  have s: "snd (generateSummary (env_key env_summary_ok) (env_net_summary env_summary_ok)
            (d_content doc_notes)) = Inr (JStr (lit ''Two tools.''))"
    by (simp add: env_summary_ok_def env_summary_fails_def summary_ok_fixture)
  have d: "find (\<lambda>d. d_id d = lit ''d1'') (db_documents db_notes) = Some doc_notes"
    by (simp add: db_notes_def doc_notes_def)
  have e: "snd (extractEntitiesWithTypes (env_key env_summary_ok) (env_net_entities env_summary_ok)
          (env_parse env_summary_ok) (d_content doc_notes))
     = [\<lparr> name = lit ''React'', etype = Idea \<rparr>, \<lparr> name = lit ''Go'', etype = Entity \<rparr>]"
    by (simp add: env_summary_ok_def env_summary_fails_def entities_fixture)
  have l: "docNodeLabel_of (Some doc_notes) (lit ''d1'') = lit ''Notes''"
    by (simp add: docNodeLabel_of_def doc_notes_def lit_def)
  have n: "db_nodes db_notes = []" by (simp add: db_notes_def)
  note t1 = processDocumentWithAI_summary_gate [of env_summary_fails "d_content doc_notes"
      db_notes "lit ''d1''" "lit ''u1''", THEN conjunct1, rule_format, OF f]
  note t2 = processDocumentWithAI_summary_gate [of env_summary_ok "d_content doc_notes"
      db_notes "lit ''d1''" "lit ''u1''", THEN conjunct2, rule_format, OF conjI[OF s d],
      THEN conjunct1]
  from t1 t2 show ?thesis by (simp add: e l n)
qed







end
